theory Spec2Isabelle
  imports Main
begin

section \<open>Data model\<close>

text \<open>
  The three programs share one data model. A cell of the board is a Python string,
  \<^verbatim>\<open>" "\<close> (blank), \<^verbatim>\<open>"X"\<close> or \<^verbatim>\<open>"O"\<close>; \<^verbatim>\<open>Board.c\<close> is a list of
  three rows of three cells, built by \<^verbatim>\<open>Board.__init__\<close> and afterwards changed only by
  assignments \<^verbatim>\<open>c[i][j] = v\<close>. \<^verbatim>\<open>Game.turn\<close> holds the mark of the player to move.
\<close>

type_synonym cell = string
type_synonym board = "cell list list"

definition blank :: cell where
  "blank = '' ''"

definition markX :: cell where
  "markX = ''X''"

definition markO :: cell where
  "markO = ''O''"

text \<open>\<^verbatim>\<open>[[" " for _ in range(3)] for _ in range(3)]\<close>\<close>

definition Board_init :: board where
  "Board_init = replicate 3 (replicate 3 blank)"

record game =
  board :: board
  turn :: cell

text \<open>\<^verbatim>\<open>Game.__init__\<close> of Part A and Part B: a fresh board, X starts.\<close>

definition Game_init :: game where
  "Game_init = \<lparr>board = Board_init, turn = markX\<rparr>"

text \<open>The shape every \<^verbatim>\<open>Board.c\<close> has: three rows of three cells.\<close>

definition board3x3 :: "board \<Rightarrow> bool" where
  "board3x3 b = (length b = 3 \<and> list_all (\<lambda>row. length row = 3) b)"

text \<open>The assignment \<^verbatim>\<open>b[i][j] = v\<close>, returning the updated board.\<close>

definition place :: "board \<Rightarrow> nat \<Rightarrow> nat \<Rightarrow> cell \<Rightarrow> board" where
  "place b i j v = b[i := (b ! i)[j := v]]"

text \<open>
  The index pairs visited by \<^verbatim>\<open>for i in range(3): for j in range(3)\<close>, in the order
  of the visit (row-major).
\<close>

definition cells :: "(nat \<times> nat) list" where
  "cells = List.product [0..<3] [0..<3]"

section \<open>Win and full-board checks\<close>

text \<open>\<^verbatim>\<open>checkFull\<close>: \<^verbatim>\<open>all(cell != " " for row in self.board.c for cell in row)\<close>.\<close>

definition checkFull :: "board \<Rightarrow> bool" where
  "checkFull b = list_all (\<lambda>row. list_all (\<lambda>c. c \<noteq> blank) row) b"

text \<open>
  \<^verbatim>\<open>checkWinState(board_state, player)\<close> of Part B: the rows (iterating over the row
  lists themselves), the columns by index, then the two diagonals, with an early
  \<^verbatim>\<open>return True\<close> at the first uniform line.
\<close>

definition checkWinState :: "board \<Rightarrow> cell \<Rightarrow> bool" where
  "checkWinState b player =
     (if list_ex (\<lambda>row. list_all (\<lambda>c. c = player) row) b then True
      else if list_ex (\<lambda>col. list_all (\<lambda>r. b ! r ! col = player) [0..<3]) [0..<3] then True
      else if list_all (\<lambda>i. b ! i ! i = player) [0..<3] then True
      else if list_all (\<lambda>i. b ! i ! (2 - i) = player) [0..<3] then True
      else False)"

section \<open>Minimax (Part B)\<close>

text \<open>
  A score is what \<^verbatim>\<open>best_score\<close> can hold: the float sentinels \<^verbatim>\<open>-inf\<close> and
  \<^verbatim>\<open>inf\<close>, or an integer.
\<close>

datatype score = NegInf | Val int | PosInf

fun score_less :: "score \<Rightarrow> score \<Rightarrow> bool" where
  "score_less NegInf NegInf = False"
| "score_less NegInf _ = True"
| "score_less (Val a) (Val b) = (a < b)"
| "score_less (Val a) PosInf = True"
| "score_less (Val a) NegInf = False"
| "score_less PosInf _ = False"

text \<open>
  Python's \<^verbatim>\<open>max(a, b)\<close> keeps \<^verbatim>\<open>a\<close> unless \<^verbatim>\<open>b > a\<close>, and \<^verbatim>\<open>min(a, b)\<close>
  keeps \<^verbatim>\<open>a\<close> unless \<^verbatim>\<open>b < a\<close>.
\<close>

definition py_max :: "score \<Rightarrow> score \<Rightarrow> score" where
  "py_max a b = (if score_less a b then b else a)"

definition py_min :: "score \<Rightarrow> score \<Rightarrow> score" where
  "py_min a b = (if score_less b a then b else a)"

text \<open>
  \<^verbatim>\<open>minimax(board_state, is_maximizing)\<close> works on the board in place: it writes a
  mark, recurses, and writes the blank back. The model passes the board through every
  call and returns it with the score, so that what the search leaves behind is part of
  the result. The first argument bounds the depth of the recursion (Python's recursion
  limit); \<open>None\<close> is a search cut off by that bound.
  \<open>minimax_loop\<close> is the pair of \<^verbatim>\<open>for\<close> loops, over the index pairs still to visit,
  with the running \<^verbatim>\<open>best_score\<close>.
\<close>

fun minimax :: "nat \<Rightarrow> board \<Rightarrow> bool \<Rightarrow> (score \<times> board) option"
  and minimax_loop :: "nat \<Rightarrow> (nat \<times> nat) list \<Rightarrow> bool \<Rightarrow> score \<Rightarrow> board \<Rightarrow> (score \<times> board) option"
where
  "minimax 0 board_state is_maximizing = None"
| "minimax (Suc n) board_state is_maximizing =
     (if checkWinState board_state markO then Some (Val 1, board_state)
      else if checkWinState board_state markX then Some (Val (- 1), board_state)
      else if checkFull board_state then Some (Val 0, board_state)
      else if is_maximizing then minimax_loop n cells True NegInf board_state
      else minimax_loop n cells False PosInf board_state)"
| "minimax_loop n [] is_maximizing best_score board_state = Some (best_score, board_state)"
| "minimax_loop n ((i, j) # rest) is_maximizing best_score board_state =
     (if board_state ! i ! j = blank then
        (case minimax n (place board_state i j (if is_maximizing then markO else markX)) (\<not> is_maximizing) of
           None \<Rightarrow> None
         | Some (score, b') \<Rightarrow>
             minimax_loop n rest is_maximizing
               (if is_maximizing then py_max best_score score else py_min best_score score)
               (place b' i j blank))
      else minimax_loop n rest is_maximizing best_score board_state)"

text \<open>
  \<^verbatim>\<open>getComputerMove\<close> of Part B: the same scan on the live board
  \<^verbatim>\<open>self.board.c\<close>, keeping the first move whose score is strictly greater than the
  best so far. \<^verbatim>\<open>best_move\<close> starts as \<^verbatim>\<open>None\<close>. The board is returned as the search
  leaves it.
\<close>

fun getComputerMove_loop ::
  "nat \<Rightarrow> (nat \<times> nat) list \<Rightarrow> score \<Rightarrow> (nat \<times> nat) option \<Rightarrow> board
     \<Rightarrow> ((nat \<times> nat) option \<times> board) option"
where
  "getComputerMove_loop n [] best_score best_move c = Some (best_move, c)"
| "getComputerMove_loop n ((i, j) # rest) best_score best_move c =
     (if c ! i ! j = blank then
        (case minimax n (place c i j markO) False of
           None \<Rightarrow> None
         | Some (score, c') \<Rightarrow>
             (if score_less best_score score
              then getComputerMove_loop n rest score (Some (i, j)) (place c' i j blank)
              else getComputerMove_loop n rest best_score best_move (place c' i j blank)))
      else getComputerMove_loop n rest best_score best_move c)"

definition getComputerMove :: "nat \<Rightarrow> board \<Rightarrow> ((nat \<times> nat) option \<times> board) option" where
  "getComputerMove n c = getComputerMove_loop n cells NegInf None c"

section \<open>Game logic shared by the three parts\<close>

text \<open>\<^verbatim>\<open>switchPlayer\<close>: X becomes O, anything else becomes X.\<close>

definition switchPlayer :: "game \<Rightarrow> game" where
  "switchPlayer g = g\<lparr>turn := (if turn g = markX then markO else markX)\<rparr>"

text \<open>
  \<^verbatim>\<open>validateEntry(row, col)\<close> takes the integers parsed from the input. Part A nests
  the cell test under the range test; Parts B and C chain the three tests with
  \<^verbatim>\<open>and\<close>, which reads the cell only when both coordinates are in range.
\<close>

definition validateEntry_A :: "board \<Rightarrow> int \<Rightarrow> int \<Rightarrow> bool" where
  "validateEntry_A c row col =
     (if 0 \<le> row \<and> row < 3 \<and> 0 \<le> col \<and> col < 3
      then (if c ! nat row ! nat col = blank then True else False)
      else False)"

definition validateEntry :: "board \<Rightarrow> int \<Rightarrow> int \<Rightarrow> bool" where
  "validateEntry c row col =
     (if 0 \<le> row \<and> row < 3 then (if 0 \<le> col \<and> col < 3 then c ! nat row ! nat col = blank else False)
      else False)"

text \<open>
  \<^verbatim>\<open>checkWin\<close> tests the player whose turn it is. Part A scans the row lists, then
  the columns, then the diagonals; Parts B and C test row \<open>i\<close> and column \<open>i\<close> together
  for each \<open>i\<close>, then the diagonals.
\<close>

definition checkWin_A :: "game \<Rightarrow> bool" where
  "checkWin_A g =
     (let b = board g; t = turn g in
      if list_ex (\<lambda>row. list_all (\<lambda>c. c = t) row) b then True
      else if list_ex (\<lambda>col. list_all (\<lambda>r. b ! r ! col = t) [0..<3]) [0..<3] then True
      else if list_all (\<lambda>i. b ! i ! i = t) [0..<3] then True
      else if list_all (\<lambda>i. b ! i ! (2 - i) = t) [0..<3] then True
      else False)"

definition checkWin :: "game \<Rightarrow> bool" where
  "checkWin g =
     (let b = board g; t = turn g in
      if list_ex (\<lambda>i. list_all (\<lambda>j. b ! i ! j = t) [0..<3] \<or> list_all (\<lambda>j. b ! j ! i = t) [0..<3]) [0..<3]
      then True
      else if list_all (\<lambda>i. b ! i ! i = t) [0..<3] \<or> list_all (\<lambda>i. b ! i ! (2 - i) = t) [0..<3]
      then True
      else False)"

definition checkEnd :: "game \<Rightarrow> bool" where
  "checkEnd g = (checkWin g \<or> checkFull (board g))"

section \<open>The turn loops\<close>

text \<open>
  What one \<^verbatim>\<open>input()\<close> of the turn loop yields after \<^verbatim>\<open>split(",")\<close> and
  \<^verbatim>\<open>int\<close>: a pair of integers, or the \<^verbatim>\<open>ValueError\<close> path of the \<^verbatim>\<open>try\<close>.
  How a loop ends: the winner's mark, or a draw.
\<close>

datatype input = Malformed | Move int int

datatype result = Win cell | Draw

text \<open>
  One pass through the body of \<^verbatim>\<open>while True\<close> in Part A. The result is the game
  after the pass and, when the pass ends in \<^verbatim>\<open>break\<close>, how the game ended; the two
  \<^verbatim>\<open>continue\<close> statements leave the game as it is.
\<close>

definition playGame_A_body :: "game \<Rightarrow> input \<Rightarrow> game \<times> result option" where
  "playGame_A_body g inp =
     (case inp of
        Malformed \<Rightarrow> (g, None)
      | Move row col \<Rightarrow>
          if \<not> validateEntry_A (board g) row col then (g, None)
          else
            let g1 = g\<lparr>board := place (board g) (nat row) (nat col) (turn g)\<rparr> in
            if checkWin_A g1 then (g1, Some (Win (turn g1)))
            else if checkFull (board g1) then (g1, Some Draw)
            else (switchPlayer g1, None))"

text \<open>
  The loop of Part A over the inputs it is given. It returns the game, how it ended
  (\<open>None\<close> when the inputs ran out first), and the inputs it has not read.
\<close>

fun playGame_A :: "game \<Rightarrow> input list \<Rightarrow> game \<times> result option \<times> input list" where
  "playGame_A g [] = (g, None, [])"
| "playGame_A g (inp # ins) =
     (case playGame_A_body g inp of
        (g', Some r) \<Rightarrow> (g', Some r, ins)
      | (g', None) \<Rightarrow> playGame_A g' ins)"

text \<open>
  The states the loop of Part A passes through, from \<^verbatim>\<open>Game.__init__\<close>: the game,
  and how it ended once the loop is left. No rule leads on from an ended game.
\<close>

inductive reachable_A :: "game \<Rightarrow> result option \<Rightarrow> bool" where
  start: "reachable_A Game_init None"
| pass: "reachable_A g None \<Longrightarrow> playGame_A_body g inp = (g', r) \<Longrightarrow> reachable_A g' r"

text \<open>
  Part B. On X's turn the body reads an input and writes the literal \<^verbatim>\<open>'X'\<close>; on any
  other turn it asks \<^verbatim>\<open>getComputerMove\<close> and writes \<^verbatim>\<open>'O'\<close> when a move came back
  (\<^verbatim>\<open>if move:\<close>). \<open>playGame_B_end\<close> is the tail of the body, from
  \<^verbatim>\<open>if self.checkEnd()\<close> on.
\<close>

definition playGame_B_end :: "game \<Rightarrow> game \<times> result option" where
  "playGame_B_end g1 =
     (if checkEnd g1 then
        (if checkWin g1 then (g1, Some (Win (turn g1))) else (g1, Some Draw))
      else (switchPlayer g1, None))"

definition playGame_B_human :: "game \<Rightarrow> input \<Rightarrow> game \<times> result option" where
  "playGame_B_human g inp =
     (case inp of
        Malformed \<Rightarrow> (g, None)
      | Move row col \<Rightarrow>
          if \<not> validateEntry (board g) row col then (g, None)
          else playGame_B_end (g\<lparr>board := place (board g) (nat row) (nat col) markX\<rparr>))"

definition playGame_B_computer :: "nat \<Rightarrow> game \<Rightarrow> (game \<times> result option) option" where
  "playGame_B_computer n g =
     (case getComputerMove n (board g) of
        None \<Rightarrow> None
      | Some (None, c) \<Rightarrow> Some (playGame_B_end (g\<lparr>board := c\<rparr>))
      | Some (Some (row, col), c) \<Rightarrow> Some (playGame_B_end (g\<lparr>board := place c row col markO\<rparr>)))"

function playGame_B :: "nat \<Rightarrow> game \<Rightarrow> input list \<Rightarrow> (game \<times> result option \<times> input list) option" where
  "playGame_B n g ins =
     (if turn g = markX then
        (case ins of
           [] \<Rightarrow> Some (g, None, [])
         | inp # ins' \<Rightarrow>
             (case playGame_B_human g inp of
                (g', Some r) \<Rightarrow> Some (g', Some r, ins')
              | (g', None) \<Rightarrow> playGame_B n g' ins'))
      else
        (case playGame_B_computer n g of
           None \<Rightarrow> None
         | Some (g', Some r) \<Rightarrow> Some (g', Some r, ins)
         | Some (g', None) \<Rightarrow> playGame_B n g' ins))"
  by pat_completeness auto

termination
  by (relation "measure (\<lambda>(n, g, ins). 2 * length ins + (if turn g = markX then 0 else 1))")
     (auto simp: playGame_B_computer_def playGame_B_end_def switchPlayer_def
           split: option.splits prod.splits if_splits)

section \<open>Self-play\<close>

text \<open>
  Modelled from the spec: the repository has no move selection for X (X is the human
  in Parts B and C) and no loop in which both sides search. The spec's \<open>bestMove\<close> for
  the minimizing player is \<^verbatim>\<open>getComputerMove\<close> with the roles exchanged: place X,
  evaluate with the maximizer to move, keep the first move whose score is strictly
  smaller than the best so far, starting from \<^verbatim>\<open>inf\<close>.
\<close>

fun getMinimizerMove_loop ::
  "nat \<Rightarrow> (nat \<times> nat) list \<Rightarrow> score \<Rightarrow> (nat \<times> nat) option \<Rightarrow> board
     \<Rightarrow> ((nat \<times> nat) option \<times> board) option"
where
  "getMinimizerMove_loop n [] best_score best_move c = Some (best_move, c)"
| "getMinimizerMove_loop n ((i, j) # rest) best_score best_move c =
     (if c ! i ! j = blank then
        (case minimax n (place c i j markX) True of
           None \<Rightarrow> None
         | Some (score, c') \<Rightarrow>
             (if score_less score best_score
              then getMinimizerMove_loop n rest score (Some (i, j)) (place c' i j blank)
              else getMinimizerMove_loop n rest best_score best_move (place c' i j blank)))
      else getMinimizerMove_loop n rest best_score best_move c)"

definition getMinimizerMove :: "nat \<Rightarrow> board \<Rightarrow> ((nat \<times> nat) option \<times> board) option" where
  "getMinimizerMove n c = getMinimizerMove_loop n cells PosInf None c"

text \<open>
  Modelled from the spec: the turn loop of Part B with both movers searching. A pass
  asks the mover's search for a move, writes the mover's mark, and ends as every pass
  of Part B ends. \<open>selfPlay\<close> runs at most \<open>k\<close> passes and returns the games after each
  pass, oldest first, with the way the game ended; \<open>None\<close> is a game not ended after
  \<open>k\<close> passes, or a search cut off.
\<close>

definition selfPlay_body :: "nat \<Rightarrow> game \<Rightarrow> (game \<times> result option) option" where
  "selfPlay_body n g =
     (case (if turn g = markX then getMinimizerMove n (board g) else getComputerMove n (board g)) of
        None \<Rightarrow> None
      | Some (None, c) \<Rightarrow> Some (playGame_B_end (g\<lparr>board := c\<rparr>))
      | Some (Some (row, col), c) \<Rightarrow>
          Some (playGame_B_end (g\<lparr>board := place c row col (if turn g = markX then markX else markO)\<rparr>)))"

fun selfPlay :: "nat \<Rightarrow> nat \<Rightarrow> game \<Rightarrow> (game list \<times> result) option" where
  "selfPlay 0 n g = None"
| "selfPlay (Suc k) n g =
     (case selfPlay_body n g of
        None \<Rightarrow> None
      | Some (g', Some r) \<Rightarrow> Some ([g'], r)
      | Some (g', None) \<Rightarrow>
          (case selfPlay k n g' of
             None \<Rightarrow> None
           | Some (gs, r) \<Rightarrow> Some (g' # gs, r)))"

section \<open>The model-driven move (Part C)\<close>

datatype error = IndexError | ValueError

text \<open>
  The one line \<^verbatim>\<open>getComputerMove\<close> of Part C prints, when the predicted cell is not a
  valid move: \<^verbatim>\<open>(ML predicted invalid move [dash] choosing a random valid spot.)\<close>
\<close>

datatype notice = InvalidPredictionNotice

text \<open>\<^verbatim>\<open>encodeBoard\<close>: row-major, X as 1, O as -1, anything else as 0.\<close>

definition encodeBoard :: "board \<Rightarrow> int list" where
  "encodeBoard c =
     concat (map (\<lambda>row. map (\<lambda>cell. if cell = markX then 1 else if cell = markO then - 1 else 0) row) c)"

text \<open>
  The list \<^verbatim>\<open>available\<close>:
  \<^verbatim>\<open>[(r, c) for r in range(3) for c in range(3) if self.board.c[r][c] == " "]\<close>.
\<close>

definition available :: "board \<Rightarrow> (nat \<times> nat) list" where
  "available c = [(r, cl). r \<leftarrow> [0..<3], cl \<leftarrow> [0..<3], c ! r ! cl = blank]"

text \<open>
  \<^verbatim>\<open>getComputerMove\<close> of Part C. The trained model enters as the function \<open>predict\<close>
  from the encoded board to the move index, and the random source as \<open>randbelow\<close>, the
  index \<^verbatim>\<open>random.choice\<close> draws for a sequence of a given length;
  \<^verbatim>\<open>random.choice\<close> raises \<^verbatim>\<open>IndexError\<close> on an empty sequence. The result is the
  returned pair and the lines printed.
\<close>

definition getComputerMove_C ::
  "(int list \<Rightarrow> int) \<Rightarrow> (nat \<Rightarrow> nat) \<Rightarrow> board \<Rightarrow> error + ((int \<times> int) \<times> notice list)"
where
  "getComputerMove_C predict randbelow c =
     (let encoded = encodeBoard c;
          move_index = predict encoded;
          row = move_index div 3;
          col = move_index mod 3
      in if \<not> validateEntry c row col then
           (if available c = [] then Inl IndexError
            else (case available c ! randbelow (length (available c)) of
                    (r, cl) \<Rightarrow> Inr ((int r, int cl), [InvalidPredictionNotice])))
         else Inr ((row, col), []))"

section \<open>Loading the training data (Part C)\<close>

text \<open>
  Strings are lists of code points below 256. \<^verbatim>\<open>str.isspace\<close> holds there for the
  characters 9 to 13, 28 to 32, 133 and 160.
\<close>

definition py_isspace :: "char \<Rightarrow> bool" where
  "py_isspace ch = (of_char ch \<in> {9, 10, 11, 12, 13, 28, 29, 30, 31, 32, 133, 160 :: nat})"

definition py_strip :: "string \<Rightarrow> string" where
  "py_strip s = rev (dropWhile py_isspace (rev (dropWhile py_isspace s)))"

text \<open>\<^verbatim>\<open>str.split()\<close> without arguments: the maximal runs of non-space characters.\<close>

fun py_split_from :: "string \<Rightarrow> string \<Rightarrow> string list" where
  "py_split_from cur [] = (if cur = [] then [] else [cur])"
| "py_split_from cur (ch # s) =
     (if py_isspace ch then (if cur = [] then py_split_from [] s else cur # py_split_from [] s)
      else py_split_from (cur @ [ch]) s)"

definition py_split :: "string \<Rightarrow> string list" where
  "py_split s = py_split_from [] s"

text \<open>
  \<^verbatim>\<open>int(s)\<close> on a string: surrounding whitespace is dropped, then an optional sign,
  then decimal digits, where single underscores may stand between digits. \<open>None\<close> is
  \<^verbatim>\<open>ValueError\<close>. The whitespace \<^verbatim>\<open>int\<close> drops is narrower than that of
  \<^verbatim>\<open>str.strip\<close>: the characters 9 to 13 and 32, and 133 and 160, which it first
  turns into spaces; the separators 28 to 31 are left in place and make the string no
  integer.
\<close>

definition int_isspace :: "char \<Rightarrow> bool" where
  "int_isspace ch = (of_char ch \<in> {9, 10, 11, 12, 13, 32, 133, 160 :: nat})"

definition int_strip :: "string \<Rightarrow> string" where
  "int_strip s = rev (dropWhile int_isspace (rev (dropWhile int_isspace s)))"

definition digit_val :: "char \<Rightarrow> nat option" where
  "digit_val ch = (let k = (of_char ch :: nat) in if 48 \<le> k \<and> k \<le> 57 then Some (k - 48) else None)"

fun py_digits :: "nat \<Rightarrow> string \<Rightarrow> nat option" where
  "py_digits acc [] = Some acc"
| "py_digits acc [ch] = (case digit_val ch of None \<Rightarrow> None | Some d \<Rightarrow> Some (10 * acc + d))"
| "py_digits acc (ch # ch' # s) =
     (if ch = CHR ''_'' then
        (case digit_val ch' of None \<Rightarrow> None | Some d \<Rightarrow> py_digits (10 * acc + d) s)
      else
        (case digit_val ch of None \<Rightarrow> None | Some d \<Rightarrow> py_digits (10 * acc + d) (ch' # s)))"

definition py_unsigned :: "string \<Rightarrow> nat option" where
  "py_unsigned s =
     (case s of
        [] \<Rightarrow> None
      | ch # rest \<Rightarrow> (case digit_val ch of None \<Rightarrow> None | Some d \<Rightarrow> py_digits d rest))"

definition py_int :: "string \<Rightarrow> int option" where
  "py_int s =
     (case int_strip s of
        [] \<Rightarrow> None
      | ch # rest \<Rightarrow>
          if ch = CHR ''-'' then map_option (\<lambda>k. - int k) (py_unsigned rest)
          else if ch = CHR ''+'' then map_option int (py_unsigned rest)
          else map_option int (py_unsigned (ch # rest)))"

text \<open>\<^verbatim>\<open>list(map(int, parts))\<close>: the first token that is no integer raises.\<close>

fun py_ints :: "string list \<Rightarrow> int list option" where
  "py_ints [] = Some []"
| "py_ints (t # ts) =
     (case py_int t of
        None \<Rightarrow> None
      | Some k \<Rightarrow> (case py_ints ts of None \<Rightarrow> None | Some ks \<Rightarrow> Some (k # ks)))"

text \<open>
  \<^verbatim>\<open>load_dataset\<close>, on the lines the file iterator yields. \<open>X\<close> and \<open>y\<close> are the two
  lists the loop appends to.
\<close>

fun load_dataset_loop :: "string list \<Rightarrow> int list list \<Rightarrow> int list \<Rightarrow> error + (int list list \<times> int list)" where
  "load_dataset_loop [] X y = Inr (X, y)"
| "load_dataset_loop (line # rest) X y =
     (let parts = py_split (py_strip line) in
      if length parts = 10 then
        (case py_ints (take 9 parts) of
           None \<Rightarrow> Inl ValueError
         | Some features \<Rightarrow>
             (case py_int (parts ! 9) of
                None \<Rightarrow> Inl ValueError
              | Some label \<Rightarrow> load_dataset_loop rest (X @ [features]) (y @ [label])))
      else load_dataset_loop rest X y)"

definition load_dataset :: "string list \<Rightarrow> error + (int list list \<times> int list)" where
  "load_dataset lines = load_dataset_loop lines [] []"


section \<open>Notions used to state the properties\<close>

text \<open>
  The eight lines of the board, as index pairs: the rows, the columns, the two
  diagonals. A player has a line when one of them holds that player's mark in all
  three cells.
\<close>

definition lines :: "(nat \<times> nat) list list" where
  "lines =
     [[(0, 0), (0, 1), (0, 2)], [(1, 0), (1, 1), (1, 2)], [(2, 0), (2, 1), (2, 2)],
      [(0, 0), (1, 0), (2, 0)], [(0, 1), (1, 1), (2, 1)], [(0, 2), (1, 2), (2, 2)],
      [(0, 0), (1, 1), (2, 2)], [(0, 2), (1, 1), (2, 0)]]"

definition has_line :: "board \<Rightarrow> cell \<Rightarrow> bool" where
  "has_line b p = (\<exists>l \<in> set lines. \<forall>(i, j) \<in> set l. b ! i ! j = p)"

text \<open>The number of blank cells, and of cells holding a given mark.\<close>

definition nblank :: "board \<Rightarrow> nat" where
  "nblank b = length (filter (\<lambda>c. c = blank) (concat b))"

definition count_mark :: "board \<Rightarrow> cell \<Rightarrow> nat" where
  "count_mark b p = length (filter (\<lambda>c. c = p) (concat b))"

text \<open>
  The score a search returns, the mark of the side to move, the scores the scan of
  \<open>minimax_loop\<close> meets (one for each blank cell, in the order of the scan), and the
  three scores of a decided game.
\<close>

definition minimax_score :: "nat \<Rightarrow> board \<Rightarrow> bool \<Rightarrow> score" where
  "minimax_score n b m = (case minimax n b m of Some (s, _) \<Rightarrow> s | None \<Rightarrow> NegInf)"

definition mover :: "bool \<Rightarrow> cell" where
  "mover m = (if m then markO else markX)"

definition scan_scores :: "nat \<Rightarrow> bool \<Rightarrow> (nat \<times> nat) list \<Rightarrow> board \<Rightarrow> score list" where
  "scan_scores n m cs b =
     map (\<lambda>(i, j). minimax_score n (place b i j (mover m)) (\<not> m)) (filter (\<lambda>(i, j). b ! i ! j = blank) cs)"

definition unit_scores :: "score set" where
  "unit_scores = {Val (- 1), Val 0, Val 1}"

text \<open>
  What the scan of a move selection meets: each blank cell with the score of the search
  after the mover's mark is placed there. \<open>keep_first\<close> is the bookkeeping of the scan
  on that list: the maximizer replaces its best move on a strictly greater score, the
  minimizer on a strictly smaller one. \<open>scanned_before\<close> is the order of the scan.
\<close>

definition move_scores :: "nat \<Rightarrow> bool \<Rightarrow> (nat \<times> nat) list \<Rightarrow> board \<Rightarrow> ((nat \<times> nat) \<times> score) list" where
  "move_scores n m cs b =
     map (\<lambda>(i, j). ((i, j), minimax_score n (place b i j (mover m)) (\<not> m)))
       (filter (\<lambda>(i, j). b ! i ! j = blank) cs)"

fun keep_first :: "bool \<Rightarrow> ((nat \<times> nat) \<times> score) list \<Rightarrow> score \<Rightarrow> (nat \<times> nat) option \<Rightarrow> (nat \<times> nat) option" where
  "keep_first m [] best_score best_move = best_move"
| "keep_first m ((c, s) # rest) best_score best_move =
     (if (if m then score_less best_score s else score_less s best_score)
      then keep_first m rest s (Some c)
      else keep_first m rest best_score best_move)"

definition scanned_before :: "nat \<times> nat \<Rightarrow> nat \<times> nat \<Rightarrow> bool" where
  "scanned_before c c' = (fst c < fst c' \<or> (fst c = fst c' \<and> snd c < snd c'))"

text \<open>
  The transition of the spec's state machine after a move has been applied, in the
  spec's words: a line of the mover's marks ends the game with the mover as winner;
  otherwise a board without a blank cell ends it in a draw; otherwise the other player
  is to move.
\<close>

definition spec_transition :: "game \<Rightarrow> game \<times> result option" where
  "spec_transition g1 =
     (if has_line (board g1) (turn g1) then (g1, Some (Win (turn g1)))
      else if list_all (\<lambda>(i, j). board g1 ! i ! j \<noteq> blank) cells then (g1, Some Draw)
      else (g1\<lparr>turn := (if turn g1 = markX then markO else markX)\<rparr>, None))"

text \<open>
  Every cell holds one of the three values. \<open>turn_inv\<close> is the alternation of the two
  players read off the board: at the head of the loop X is to move on equal counts and
  O when X is one ahead; once the loop is left, the player whose turn it still is has
  made the last move.
\<close>

definition cells_ok :: "board \<Rightarrow> bool" where
  "cells_ok b = list_all (\<lambda>row. list_all (\<lambda>c. c = blank \<or> c = markX \<or> c = markO) row) b"

definition turn_inv :: "game \<Rightarrow> result option \<Rightarrow> bool" where
  "turn_inv g r =
     (board3x3 (board g) \<and> cells_ok (board g) \<and>
      (case r of
         None \<Rightarrow> (turn g = markX \<and> count_mark (board g) markX = count_mark (board g) markO)
               \<or> (turn g = markO \<and> count_mark (board g) markX = Suc (count_mark (board g) markO))
       | Some _ \<Rightarrow> (turn g = markX \<and> count_mark (board g) markX = Suc (count_mark (board g) markO))
               \<or> (turn g = markO \<and> count_mark (board g) markX = count_mark (board g) markO)))"

text \<open>
  The fields \<^verbatim>\<open>load_dataset\<close> makes of a line, and the lines it keeps: those with
  exactly ten fields.
\<close>

definition line_fields :: "string \<Rightarrow> string list" where
  "line_fields line = py_split (py_strip line)"

definition well_formed_line :: "string \<Rightarrow> bool" where
  "well_formed_line line = (length (line_fields line) = 10)"

section \<open>A second evaluator, for concrete boards\<close>

text \<open>
  A cell read as one of four cases, and a board as rows of such cells. \<open>win_sq\<close> and
  \<open>full_sq\<close> are the two checks on that reading.
\<close>

datatype sq = SqBlank | SqX | SqO | SqOther

definition abs_cell :: "cell \<Rightarrow> sq" where
  "abs_cell c = (if c = blank then SqBlank else if c = markX then SqX else if c = markO then SqO else SqOther)"

definition abs_board :: "board \<Rightarrow> sq list list" where
  "abs_board b = map (map abs_cell) b"

fun line3 :: "sq \<Rightarrow> sq \<Rightarrow> sq \<Rightarrow> sq \<Rightarrow> bool" where
  "line3 p a b c = (if a = p then (if b = p then c = p else False) else False)"

fun win_sq :: "sq \<Rightarrow> sq list list \<Rightarrow> bool" where
  "win_sq p [[a1, a2, a3], [b1, b2, b3], [c1, c2, c3]] =
     (if line3 p a1 a2 a3 then True else if line3 p b1 b2 b3 then True
      else if line3 p c1 c2 c3 then True else if line3 p a1 b1 c1 then True
      else if line3 p a2 b2 c2 then True else if line3 p a3 b3 c3 then True
      else if line3 p a1 b2 c3 then True else line3 p a3 b2 c1)"
| "win_sq p _ = False"

fun full_row :: "sq list \<Rightarrow> bool" where
  "full_row [] = True"
| "full_row (c # cs) = (if c = SqBlank then False else full_row cs)"

fun full_sq :: "sq list list \<Rightarrow> bool" where
  "full_sq [] = True"
| "full_sq (r # rs) = (if full_row r then full_sq rs else False)"

text \<open>
  \<open>reaches n t m b\<close> answers whether the value of board \<open>b\<close>, with the maximizer to
  move when \<open>m\<close> holds, is at least 1 (when \<open>t\<close> holds) or at least 0 (otherwise). It
  visits the cells in the order of \<^verbatim>\<open>minimax\<close> and stops at the first child that
  settles the answer. \<open>fast_score\<close> reads the value off two such answers, and
  \<open>fast_move\<close> is the scan of a move selection on these scores.
\<close>

definition place_sq :: "sq list list \<Rightarrow> nat \<Rightarrow> nat \<Rightarrow> sq \<Rightarrow> sq list list" where
  "place_sq b i j v = b[i := (b ! i)[j := v]]"

definition ucells :: "(nat \<times> nat) list" where
  "ucells =
     [(0, 0), (0, Suc 0), (0, Suc (Suc 0)),
      (Suc 0, 0), (Suc 0, Suc 0), (Suc 0, Suc (Suc 0)),
      (Suc (Suc 0), 0), (Suc (Suc 0), Suc 0), (Suc (Suc 0), Suc (Suc 0))]"

fun reaches :: "nat \<Rightarrow> bool \<Rightarrow> bool \<Rightarrow> sq list list \<Rightarrow> bool"
  and reaches_loop :: "nat \<Rightarrow> bool \<Rightarrow> bool \<Rightarrow> (nat \<times> nat) list \<Rightarrow> sq list list \<Rightarrow> bool"
where
  "reaches 0 t m b = False"
| "reaches (Suc n) t m b =
     (if win_sq SqO b then True else if win_sq SqX b then False
      else if full_sq b then \<not> t else reaches_loop n t m ucells b)"
| "reaches_loop n t m [] b = (\<not> m)"
| "reaches_loop n t m ((i, j) # rest) b =
     (if b ! i ! j = SqBlank then
        (if m then (if reaches n t False (place_sq b i j SqO) then True else reaches_loop n t m rest b)
         else (if reaches n t True (place_sq b i j SqX) then reaches_loop n t m rest b else False))
      else reaches_loop n t m rest b)"

definition fast_score :: "nat \<Rightarrow> bool \<Rightarrow> sq list list \<Rightarrow> score" where
  "fast_score n m b = (if reaches n True m b then Val 1 else if reaches n False m b then Val 0 else Val (- 1))"

definition fast_move :: "bool \<Rightarrow> nat \<Rightarrow> sq list list \<Rightarrow> (nat \<times> nat) option" where
  "fast_move m n b =
     keep_first m
       (map (\<lambda>(i, j). ((i, j), fast_score n (\<not> m) (place_sq b i j (if m then SqO else SqX))))
          (filter (\<lambda>(i, j). b ! i ! j = SqBlank) ucells))
       (if m then NegInf else PosInf) None"

definition threshold :: "bool \<Rightarrow> score" where
  "threshold t = Val (if t then 0 else - 1)"

text \<open>The games of the self-play from the empty board, after each pass.\<close>

definition selfPlay_history :: "game list" where
  "selfPlay_history =
      [\<lparr>board = [[markX, blank, blank], [blank, blank, blank], [blank, blank, blank]], turn = markO\<rparr>,
       \<lparr>board = [[markX, blank, blank], [blank, markO, blank], [blank, blank, blank]], turn = markX\<rparr>,
       \<lparr>board = [[markX, markX, blank], [blank, markO, blank], [blank, blank, blank]], turn = markO\<rparr>,
       \<lparr>board = [[markX, markX, markO], [blank, markO, blank], [blank, blank, blank]], turn = markX\<rparr>,
       \<lparr>board = [[markX, markX, markO], [blank, markO, blank], [markX, blank, blank]], turn = markO\<rparr>,
       \<lparr>board = [[markX, markX, markO], [markO, markO, blank], [markX, blank, blank]], turn = markX\<rparr>,
       \<lparr>board = [[markX, markX, markO], [markO, markO, markX], [markX, blank, blank]], turn = markO\<rparr>,
       \<lparr>board = [[markX, markX, markO], [markO, markO, markX], [markX, markO, blank]], turn = markX\<rparr>,
       \<lparr>board = [[markX, markX, markO], [markO, markO, markX], [markX, markO, markX]], turn = markX\<rparr>]"


section \<open>Boards, cells and lines\<close>

lemma marks_distinct [simp]:
  "blank \<noteq> markX" "blank \<noteq> markO" "markX \<noteq> blank" "markX \<noteq> markO" "markO \<noteq> blank" "markO \<noteq> markX"
  by (simp_all add: blank_def markX_def markO_def)

lemma cells_eq: "cells = [(0,0),(0,1),(0,2),(1,0),(1,1),(1,2),(2,0),(2,1),(2,2)]"
  by (simp add: cells_def upt_rec numeral_3_eq_3 numeral_2_eq_2)

lemma upt3: "[0..<3] = [0, 1, 2]"
  by (simp add: upt_rec numeral_3_eq_3 numeral_2_eq_2)

lemma length3E:
  assumes "length xs = 3"
  obtains a b c where "xs = [a, b, c]"
  using assms by (auto simp: numeral_3_eq_3 length_Suc_conv)

lemma board3x3E:
  assumes "board3x3 b"
  obtains a1 a2 a3 b1 b2 b3 c1 c2 c3 where "b = [[a1, a2, a3], [b1, b2, b3], [c1, c2, c3]]"
proof -
  from assms have l: "length b = 3" and r: "\<forall>row \<in> set b. length row = 3"
    by (auto simp: board3x3_def list_all_iff)
  from l obtain r1 r2 r3 where b: "b = [r1, r2, r3]" by (rule length3E)
  with r have "length r1 = 3" "length r2 = 3" "length r3 = 3" by auto
  then show ?thesis using b that by (elim length3E) auto
qed

lemma checkWinState_has_line:
  assumes "board3x3 b"
  shows "checkWinState b p = has_line b p"
proof -
  from assms obtain a1 a2 a3 b1 b2 b3 c1 c2 c3 where "b = [[a1, a2, a3], [b1, b2, b3], [c1, c2, c3]]"
    by (rule board3x3E)
  then show ?thesis
    by (simp add: checkWinState_def has_line_def lines_def upt3)
qed

lemma validate_iff: "validateEntry c row col \<longleftrightarrow> (0 \<le> row \<and> row < 3 \<and> 0 \<le> col \<and> col < 3 \<and> c ! nat row ! nat col = blank)"
  by (auto simp: validateEntry_def)

lemma validateA_iff: "validateEntry_A c row col \<longleftrightarrow> (0 \<le> row \<and> row < 3 \<and> 0 \<le> col \<and> col < 3 \<and> c ! nat row ! nat col = blank)"
  by (auto simp: validateEntry_A_def)

lemma in_cells: "(i, j) \<in> set cells \<longleftrightarrow> i < 3 \<and> j < 3"
  by (auto simp: cells_def)

lemma lt3: "(i::nat) < 3 \<longleftrightarrow> i = 0 \<or> i = 1 \<or> i = 2"
  by auto

lemma board3x3_place: "board3x3 b \<Longrightarrow> board3x3 (place b i j v)"
proof (cases "i < length b")
  case True
  assume "board3x3 b"
  with True have "length ((b ! i)[j := v]) = 3"
    by (simp add: board3x3_def list_all_iff)
  with \<open>board3x3 b\<close> show ?thesis
    using set_update_subset_insert [of b i "(b ! i)[j := v]"]
    by (auto simp: board3x3_def place_def list_all_iff)
next
  case False
  assume "board3x3 b"
  with False show ?thesis by (simp add: place_def list_update_beyond)
qed

lemma place_get: "board3x3 b \<Longrightarrow> i < 3 \<Longrightarrow> j < 3 \<Longrightarrow> place b i j v ! i ! j = v"
  by (auto simp: board3x3_def place_def list_all_iff)

lemma place_undo:
  "board3x3 b \<Longrightarrow> b ! i ! j = w \<Longrightarrow> place (place b i j v) i j w = b"
  by (cases "i < length b") (auto simp: place_def list_update_beyond)

lemma filter_update_blank:
  "j < length xs \<Longrightarrow> xs ! j = blank \<Longrightarrow> v \<noteq> blank \<Longrightarrow>
   Suc (length (filter (\<lambda>c. c = blank) (xs[j := v]))) = length (filter (\<lambda>c. c = blank) xs)"
  by (induction xs arbitrary: j) (auto split: nat.splits)

lemma nblank_place:
  assumes "board3x3 b" "i < 3" "j < 3" "b ! i ! j = blank" "v \<noteq> blank"
  shows "Suc (nblank (place b i j v)) = nblank b"
proof -
  from assms(1,2) have i: "i < length b" and j: "j < length (b ! i)"
    using assms(3) by (auto simp: board3x3_def list_all_iff)
  have b: "b = take i b @ b ! i # drop (Suc i) b"
    using i by (rule id_take_nth_drop)
  have "place b i j v = take i b @ (b ! i)[j := v] # drop (Suc i) b"
    unfolding place_def using i by (rule upd_conv_take_nth_drop)
  then have "Suc (nblank (place b i j v)) =
      length (filter (\<lambda>c. c = blank) (concat (take i b)))
      + Suc (length (filter (\<lambda>c. c = blank) ((b ! i)[j := v])))
      + length (filter (\<lambda>c. c = blank) (concat (drop (Suc i) b)))"
    by (simp add: nblank_def)
  also have "\<dots> = length (filter (\<lambda>c. c = blank) (concat (take i b)))
      + length (filter (\<lambda>c. c = blank) (b ! i))
      + length (filter (\<lambda>c. c = blank) (concat (drop (Suc i) b)))"
    using filter_update_blank [OF j assms(4,5)] by simp
  also have "\<dots> = length (filter (\<lambda>c. c = blank) (concat (take i b @ b ! i # drop (Suc i) b)))"
    by simp
  also have "\<dots> = nblank b"
    using b by (simp add: nblank_def)
  finally show ?thesis .
qed

lemma checkFull_iff: "board3x3 b \<Longrightarrow> checkFull b \<longleftrightarrow> (\<forall>(i, j) \<in> set cells. b ! i ! j \<noteq> blank)"
  by (erule board3x3E) (simp add: checkFull_def cells_eq)

lemma checkFull_nblank: "checkFull b \<longleftrightarrow> nblank b = 0"
  by (auto simp: checkFull_def nblank_def list_all_iff filter_empty_conv)

section \<open>The search returns, on the board it was given\<close>

lemma mover_not_blank [simp]: "mover m \<noteq> blank"
  by (simp add: mover_def)

lemma minimax_loop_scan:
  assumes IH: "\<And>b' m'. board3x3 b' \<Longrightarrow> nblank b' < n \<Longrightarrow> \<exists>s. minimax n b' m' = Some (s, b')"
    and b: "board3x3 b" "nblank b \<le> n" and cs: "set cs \<subseteq> set cells"
  shows "minimax_loop n cs m best b =
     Some (foldl (if m then py_max else py_min) best (scan_scores n m cs b), b)"
  using cs
proof (induction cs arbitrary: best)
  case Nil
  then show ?case by (simp add: scan_scores_def)
next
  case (Cons c cs)
  obtain i j where c: "c = (i, j)" by (cases c)
  with Cons.prems have ij: "i < 3" "j < 3" and cs': "set cs \<subseteq> set cells"
    by (auto simp: in_cells)
  show ?case
  proof (cases "b ! i ! j = blank")
    case False
    with Cons.IH [OF cs'] c show ?thesis by (simp add: scan_scores_def)
  next
    case True
    let ?b' = "place b i j (mover m)"
    have "board3x3 ?b'" using b(1) by (rule board3x3_place)
    moreover have "nblank ?b' < n"
      using nblank_place [OF b(1) ij True, of "mover m"] b(2) by simp
    ultimately obtain s where s: "minimax n ?b' (\<not> m) = Some (s, ?b')"
      using IH by blast
    have undo: "place ?b' i j blank = b"
      using b(1) True by (rule place_undo)
    have sc: "minimax_score n ?b' (\<not> m) = s"
      by (simp add: minimax_score_def s)
    from s undo sc True c Cons.IH [OF cs'] show ?thesis
      by (cases m) (simp_all add: scan_scores_def mover_def)
  qed
qed

lemma py_max_unit: "a \<in> insert NegInf unit_scores \<Longrightarrow> b \<in> unit_scores \<Longrightarrow> py_max a b \<in> unit_scores"
  by (auto simp: unit_scores_def py_max_def)

lemma py_min_unit: "a \<in> insert PosInf unit_scores \<Longrightarrow> b \<in> unit_scores \<Longrightarrow> py_min a b \<in> unit_scores"
  by (auto simp: unit_scores_def py_min_def)

lemma foldl_py_max_unit:
  "set xs \<subseteq> unit_scores \<Longrightarrow> a \<in> unit_scores \<Longrightarrow> foldl py_max a xs \<in> unit_scores"
  by (induction xs arbitrary: a) (auto intro: py_max_unit)

lemma foldl_py_min_unit:
  "set xs \<subseteq> unit_scores \<Longrightarrow> a \<in> unit_scores \<Longrightarrow> foldl py_min a xs \<in> unit_scores"
  by (induction xs arbitrary: a) (auto intro: py_min_unit)

lemma foldl_py_max_NegInf:
  "set xs \<subseteq> unit_scores \<Longrightarrow> xs \<noteq> [] \<Longrightarrow> foldl py_max NegInf xs \<in> unit_scores"
  by (cases xs) (auto intro!: foldl_py_max_unit py_max_unit)

lemma foldl_py_min_PosInf:
  "set xs \<subseteq> unit_scores \<Longrightarrow> xs \<noteq> [] \<Longrightarrow> foldl py_min PosInf xs \<in> unit_scores"
  by (cases xs) (auto intro!: foldl_py_min_unit py_min_unit)

lemma scan_scores_nonempty:
  "board3x3 b \<Longrightarrow> \<not> checkFull b \<Longrightarrow> scan_scores n m cells b \<noteq> []"
  by (auto simp: scan_scores_def checkFull_iff filter_empty_conv)

lemma minimax_total:
  "board3x3 b \<Longrightarrow> nblank b < n \<Longrightarrow> \<exists>s \<in> unit_scores. minimax n b m = Some (s, b)"
proof (induction n arbitrary: b m)
  case 0
  then show ?case by simp
next
  case (Suc n)
  have IH: "\<exists>s. minimax n b' m' = Some (s, b')" if "board3x3 b'" "nblank b' < n" for b' m'
    using Suc.IH [OF that] by blast
  have loop: "minimax_loop n cells m best b =
      Some (foldl (if m then py_max else py_min) best (scan_scores n m cells b), b)" for best
    using IH Suc.prems by (intro minimax_loop_scan) auto
  have sub: "set (scan_scores n m cells b) \<subseteq> unit_scores"
  proof
    fix s assume "s \<in> set (scan_scores n m cells b)"
    then obtain i j where ij: "(i, j) \<in> set cells" "b ! i ! j = blank"
      and s: "s = minimax_score n (place b i j (mover m)) (\<not> m)"
      by (auto simp: scan_scores_def)
    from ij have "nblank (place b i j (mover m)) < n"
      using nblank_place [OF Suc.prems(1), of i j "mover m"] Suc.prems(2) by (simp add: in_cells)
    with Suc.IH [OF board3x3_place [OF Suc.prems(1)], of i j "mover m" "\<not> m"] s
    show "s \<in> unit_scores" by (auto simp: minimax_score_def)
  qed
  show ?case
  proof (cases "checkWinState b markO \<or> checkWinState b markX \<or> checkFull b")
    case True
    then show ?thesis by (auto simp: unit_scores_def)
  next
    case False
    then have ne: "scan_scores n m cells b \<noteq> []"
      using Suc.prems(1) by (simp add: scan_scores_nonempty)
    from False show ?thesis
      using loop foldl_py_max_NegInf [OF sub ne] foldl_py_min_PosInf [OF sub ne] by (cases m) simp_all
  qed
qed

lemma nblank_le9: "board3x3 b \<Longrightarrow> nblank b \<le> 9"
  by (erule board3x3E) (simp add: nblank_def)

section \<open>The scan of a move selection\<close>

lemma minimax_loop_frame:
  assumes IH: "\<And>c m' s c'. board3x3 c \<Longrightarrow> minimax n c m' = Some (s, c') \<Longrightarrow> c' = c"
    and "board3x3 b" "minimax_loop n cs m best b = Some (s, b')"
  shows "b' = b"
  using assms(3)
proof (induction cs arbitrary: best)
  case Nil
  then show ?case by simp
next
  case (Cons c cs)
  obtain i j where c: "c = (i, j)" by (cases c)
  show ?case
  proof (cases "b ! i ! j = blank")
    case False
    with Cons c show ?thesis by simp
  next
    case True
    let ?c = "place b i j (if m then markO else markX)"
    from Cons.prems c True obtain sc c' where r: "minimax n ?c (\<not> m) = Some (sc, c')"
      by (auto split: option.splits)
    have "c' = ?c"
      using IH [OF board3x3_place [OF assms(2)] r] .
    then have undo: "place c' i j blank = b"
      using place_undo [OF assms(2) True] by simp
    from Cons.prems have "minimax_loop n cs m (if m then py_max best sc else py_min best sc) b = Some (s, b')"
      by (simp add: c True r undo)
    then show ?thesis by (rule Cons.IH)
  qed
qed

lemma minimax_frame:
  "board3x3 b \<Longrightarrow> minimax n b m = Some (s, b') \<Longrightarrow> b' = b"
proof (induction n arbitrary: b m s b')
  case 0
  then show ?case by simp
next
  case (Suc n)
  from Suc.prems show ?case
    by (auto split: if_splits dest: minimax_loop_frame [rotated 1, OF Suc.prems(1)] intro: Suc.IH)
qed

lemma getComputerMove_loop_frame:
  assumes "board3x3 b" "getComputerMove_loop n cs bs bm b = Some (mv, b')"
  shows "b' = b"
  using assms(2)
proof (induction cs arbitrary: bs bm)
  case Nil
  then show ?case by simp
next
  case (Cons c cs)
  obtain i j where c: "c = (i, j)" by (cases c)
  show ?case
  proof (cases "b ! i ! j = blank")
    case False
    with Cons c show ?thesis by simp
  next
    case True
    from Cons.prems c True obtain sc c' where r: "minimax n (place b i j markO) False = Some (sc, c')"
      by (auto split: option.splits)
    have "c' = place b i j markO"
      using minimax_frame [OF board3x3_place [OF assms(1)] r] .
    then have undo: "place c' i j blank = b"
      using place_undo [OF assms(1) True] by simp
    from Cons.prems have "getComputerMove_loop n cs (if score_less bs sc then sc else bs)
        (if score_less bs sc then Some (i, j) else bm) b = Some (mv, b')"
      by (auto simp: c True r undo split: if_splits)
    then show ?thesis by (rule Cons.IH)
  qed
qed

lemma child_search:
  assumes "board3x3 b" "nblank b \<le> n" "(i, j) \<in> set cells" "b ! i ! j = blank"
  shows "minimax n (place b i j (mover m)) m' = Some (minimax_score n (place b i j (mover m)) m', place b i j (mover m))"
    and "minimax_score n (place b i j (mover m)) m' \<in> unit_scores"
proof -
  have "nblank (place b i j (mover m)) < n"
    using nblank_place [OF assms(1), of i j "mover m"] assms(2-4) by (simp add: in_cells)
  from minimax_total [OF board3x3_place [OF assms(1)] this, of m']
  show "minimax n (place b i j (mover m)) m' = Some (minimax_score n (place b i j (mover m)) m', place b i j (mover m))"
    and "minimax_score n (place b i j (mover m)) m' \<in> unit_scores"
    by (auto simp: minimax_score_def)
qed

lemma getComputerMove_loop_scan:
  assumes "board3x3 b" "nblank b \<le> n" "set cs \<subseteq> set cells"
  shows "getComputerMove_loop n cs bs bm b = Some (keep_first True (move_scores n True cs b) bs bm, b)"
  using assms(3)
proof (induction cs arbitrary: bs bm)
  case Nil
  then show ?case by (simp add: move_scores_def)
next
  case (Cons c cs)
  obtain i j where c: "c = (i, j)" by (cases c)
  with Cons.prems have ij: "(i, j) \<in> set cells" and cs: "set cs \<subseteq> set cells" by auto
  show ?case
  proof (cases "b ! i ! j = blank")
    case False
    with Cons.IH [OF cs] c show ?thesis by (simp add: move_scores_def)
  next
    case True
    from child_search(1) [OF assms(1,2) ij True, of True False] place_undo [OF assms(1) True, of markO]
      True c Cons.IH [OF cs]
    show ?thesis by (simp add: move_scores_def mover_def)
  qed
qed

lemma getMinimizerMove_loop_scan:
  assumes "board3x3 b" "nblank b \<le> n" "set cs \<subseteq> set cells"
  shows "getMinimizerMove_loop n cs bs bm b = Some (keep_first False (move_scores n False cs b) bs bm, b)"
  using assms(3)
proof (induction cs arbitrary: bs bm)
  case Nil
  then show ?case by (simp add: move_scores_def)
next
  case (Cons c cs)
  obtain i j where c: "c = (i, j)" by (cases c)
  with Cons.prems have ij: "(i, j) \<in> set cells" and cs: "set cs \<subseteq> set cells" by auto
  show ?case
  proof (cases "b ! i ! j = blank")
    case False
    with Cons.IH [OF cs] c show ?thesis by (simp add: move_scores_def)
  next
    case True
    from child_search(1) [OF assms(1,2) ij True, of False True] place_undo [OF assms(1) True, of markX]
      True c Cons.IH [OF cs]
    show ?thesis by (simp add: move_scores_def mover_def)
  qed
qed

lemma score_less_trans: "score_less a b \<Longrightarrow> score_less b c \<Longrightarrow> score_less a c"
  by (cases a; cases b; cases c) auto

lemma score_less_total: "\<not> score_less a b \<Longrightarrow> score_less a c \<Longrightarrow> score_less b c"
  by (cases a; cases b; cases c) auto

lemma score_less_total': "\<not> score_less b a \<Longrightarrow> score_less c a \<Longrightarrow> score_less c b"
  by (cases a; cases b; cases c) auto

lemma keep_first_max:
  "(keep_first True xs bs bm = bm \<and> (\<forall>(c, s) \<in> set xs. \<not> score_less bs s))
   \<or> (\<exists>pre c s post. xs = pre @ (c, s) # post \<and> keep_first True xs bs bm = Some c \<and> score_less bs s
        \<and> (\<forall>(c', s') \<in> set pre. score_less s' s) \<and> (\<forall>(c', s') \<in> set post. \<not> score_less s s'))"
proof (induction xs arbitrary: bs bm)
  case Nil
  then show ?case by simp
next
  case (Cons x xs)
  obtain c0 s0 where x: "x = (c0, s0)" by (cases x)
  show ?case
  proof (cases "score_less bs s0")
    case True
    from Cons.IH [of s0 "Some c0"] show ?thesis
    proof (elim disjE conjE exE)
      assume "keep_first True xs s0 (Some c0) = Some c0" "\<forall>(c, s) \<in> set xs. \<not> score_less s0 s"
      with True x have "x # xs = [] @ (c0, s0) # xs \<and> keep_first True (x # xs) bs bm = Some c0 \<and> score_less bs s0
        \<and> (\<forall>(c', s') \<in> set []. score_less s' s0) \<and> (\<forall>(c', s') \<in> set xs. \<not> score_less s0 s')"
        by simp
      then show ?thesis by blast
    next
      fix pre c s post
      assume "xs = pre @ (c, s) # post" "keep_first True xs s0 (Some c0) = Some c" "score_less s0 s"
        "\<forall>(c', s') \<in> set pre. score_less s' s" "\<forall>(c', s') \<in> set post. \<not> score_less s s'"
      with True x have "x # xs = ((c0, s0) # pre) @ (c, s) # post \<and> keep_first True (x # xs) bs bm = Some c \<and> score_less bs s
        \<and> (\<forall>(c', s') \<in> set ((c0, s0) # pre). score_less s' s) \<and> (\<forall>(c', s') \<in> set post. \<not> score_less s s')"
        by (auto intro: score_less_trans)
      then show ?thesis by blast
    qed
  next
    case False
    from Cons.IH [of bs bm] show ?thesis
    proof (elim disjE conjE exE)
      assume "keep_first True xs bs bm = bm" "\<forall>(c, s) \<in> set xs. \<not> score_less bs s"
      with False x show ?thesis by simp
    next
      fix pre c s post
      assume "xs = pre @ (c, s) # post" "keep_first True xs bs bm = Some c" "score_less bs s"
        "\<forall>(c', s') \<in> set pre. score_less s' s" "\<forall>(c', s') \<in> set post. \<not> score_less s s'"
      with False x have "x # xs = ((c0, s0) # pre) @ (c, s) # post \<and> keep_first True (x # xs) bs bm = Some c \<and> score_less bs s
        \<and> (\<forall>(c', s') \<in> set ((c0, s0) # pre). score_less s' s) \<and> (\<forall>(c', s') \<in> set post. \<not> score_less s s')"
        by (auto intro: score_less_total)
      then show ?thesis by blast
    qed
  qed
qed

lemma sorted_cells: "sorted_wrt scanned_before cells"
  by (simp add: cells_eq scanned_before_def)

lemma move_scores_fst: "map fst (move_scores n m cs b) = filter (\<lambda>(i, j). b ! i ! j = blank) cs"
  by (induction cs) (auto simp: move_scores_def)

lemma move_scores_mem:
  "(c, s) \<in> set (move_scores n m cs b) \<longleftrightarrow>
   c \<in> set cs \<and> b ! fst c ! snd c = blank \<and> s = minimax_score n (place b (fst c) (snd c) (mover m)) (\<not> m)"
  by (cases c) (auto simp: move_scores_def image_iff)

lemma score_less_asym: "score_less a b \<Longrightarrow> \<not> score_less b a"
  by (cases a; cases b) auto

lemma scanned_before_asym: "scanned_before c c' \<Longrightarrow> \<not> scanned_before c' c"
  by (auto simp: scanned_before_def)

lemma move_scores_split_before:
  assumes "move_scores n m cells b = pre @ (c, s) # post"
    and "(c', s') \<in> set (move_scores n m cells b)" "scanned_before c' c"
  shows "(c', s') \<in> set pre"
proof -
  have "sorted_wrt scanned_before (map fst (move_scores n m cells b))"
    unfolding move_scores_fst using sorted_cells by (rule sorted_wrt_filter)
  then have "sorted_wrt scanned_before (map fst pre @ c # map fst post)"
    by (simp add: assms(1))
  then have post: "\<forall>y \<in> set (map fst post). scanned_before c y"
    by (simp add: sorted_wrt_append)
  from assms(3) have "c' \<noteq> c" by (auto simp: scanned_before_def)
  moreover have "(c', s') \<notin> set post"
  proof
    assume "(c', s') \<in> set post"
    then have "c' \<in> set (map fst post)" by force
    with post have "scanned_before c c'" by blast
    with assms(3) show False by (auto dest: scanned_before_asym)
  qed
  ultimately show ?thesis using assms(2) by (auto simp: assms(1))
qed

lemma getComputerMove_first_max:
  assumes b: "board3x3 b" "nblank b \<le> n" and ne: "\<not> checkFull b"
  shows "\<exists>c. getComputerMove n b = Some (Some c, b)
     \<and> c \<in> set cells \<and> b ! fst c ! snd c = blank
     \<and> (\<forall>c' \<in> set cells. b ! fst c' ! snd c' = blank \<longrightarrow>
           \<not> score_less (minimax_score n (place b (fst c) (snd c) markO) False)
                         (minimax_score n (place b (fst c') (snd c') markO) False))
     \<and> (\<forall>c' \<in> set cells. b ! fst c' ! snd c' = blank \<and> scanned_before c' c \<longrightarrow>
           score_less (minimax_score n (place b (fst c') (snd c') markO) False)
                      (minimax_score n (place b (fst c) (snd c) markO) False))"
proof -
  let ?xs = "move_scores n True cells b"
  let ?sc = "\<lambda>c. minimax_score n (place b (fst c) (snd c) markO) False"
  have g: "getComputerMove n b = Some (keep_first True ?xs NegInf None, b)"
    unfolding getComputerMove_def using b by (intro getComputerMove_loop_scan) auto
  have mem: "(c, s) \<in> set ?xs \<longleftrightarrow> c \<in> set cells \<and> b ! fst c ! snd c = blank \<and> s = ?sc c" for c s
    by (simp add: move_scores_mem mover_def)
  have unit: "s \<in> unit_scores" if "(c, s) \<in> set ?xs" for c s
    using that child_search(2) [OF b, of "fst c" "snd c" True False] by (auto simp: mem mover_def)
  from ne b(1) obtain c0 where c0: "c0 \<in> set cells" "b ! fst c0 ! snd c0 = blank"
    by (auto simp: checkFull_iff)
  then have in0: "(c0, ?sc c0) \<in> set ?xs" by (simp add: mem)
  from unit [OF in0] have "score_less NegInf (?sc c0)"
    by (auto simp: unit_scores_def)
  with in0 have "\<not> (\<forall>(c, s) \<in> set ?xs. \<not> score_less NegInf s)" by blast
  with keep_first_max [of ?xs NegInf None] obtain pre c s post where
    split: "?xs = pre @ (c, s) # post" and k: "keep_first True ?xs NegInf None = Some c"
    and pre: "\<forall>(c', s') \<in> set pre. score_less s' s" and post: "\<forall>(c', s') \<in> set post. \<not> score_less s s'"
    by blast
  from split have cin: "(c, s) \<in> set ?xs" by simp
  then have c: "c \<in> set cells" "b ! fst c ! snd c = blank" "s = ?sc c" by (simp_all add: mem)
  have nolt: "\<not> score_less s s" by (cases s) auto
  have max: "\<not> score_less (?sc c) (?sc c')" if "c' \<in> set cells" "b ! fst c' ! snd c' = blank" for c'
  proof -
    from that have "(c', ?sc c') \<in> set ?xs" by (simp add: mem)
    then consider "(c', ?sc c') \<in> set pre" | "(c', ?sc c') = (c, s)" | "(c', ?sc c') \<in> set post"
      by (auto simp: split)
    then show ?thesis
    proof cases
      case 1
      with pre have "score_less (?sc c') s" by blast
      then show ?thesis using c(3) by (auto dest: score_less_asym)
    next
      case 2
      then show ?thesis using nolt c(3) by simp
    next
      case 3
      with post show ?thesis using c(3) by blast
    qed
  qed
  have first: "score_less (?sc c') (?sc c)"
    if "c' \<in> set cells" "b ! fst c' ! snd c' = blank" "scanned_before c' c" for c'
  proof -
    from that have "(c', ?sc c') \<in> set ?xs" by (simp add: mem)
    from move_scores_split_before [OF split this that(3)] pre c(3) show ?thesis by blast
  qed
  from g k c max first show ?thesis by auto
qed

section \<open>The turn loop\<close>

lemma checkWin_A_has_line: "board3x3 (board g) \<Longrightarrow> checkWin_A g = has_line (board g) (turn g)"
  by (erule board3x3E) (simp add: checkWin_A_def has_line_def lines_def upt3 Let_def)

lemma checkWin_has_line: "board3x3 (board g) \<Longrightarrow> checkWin g = has_line (board g) (turn g)"
  by (erule board3x3E) (auto simp add: checkWin_def has_line_def lines_def upt3 Let_def)

lemma checkFull_cells: "board3x3 b \<Longrightarrow> checkFull b = list_all (\<lambda>(i, j). b ! i ! j \<noteq> blank) cells"
  by (simp add: checkFull_iff list_all_iff)

lemma playGame_A_body_spec:
  assumes "board3x3 (board g)" "validateEntry_A (board g) row col"
  shows "playGame_A_body g (Move row col) =
     spec_transition (g\<lparr>board := place (board g) (nat row) (nat col) (turn g)\<rparr>)"
  using assms board3x3_place [OF assms(1), of "nat row" "nat col" "turn g"]
  by (simp add: playGame_A_body_def spec_transition_def Let_def checkWin_A_has_line checkFull_cells
      switchPlayer_def)

lemma playGame_B_end_spec:
  assumes "board3x3 (board g1)"
  shows "playGame_B_end g1 = spec_transition g1"
  using assms
  by (simp add: playGame_B_end_def spec_transition_def checkEnd_def checkWin_has_line checkFull_cells
      switchPlayer_def)

lemma filter_update_count:
  "j < length xs \<Longrightarrow> xs ! j \<noteq> p \<Longrightarrow>
   length (filter (\<lambda>c. c = p) (xs[j := v])) = length (filter (\<lambda>c. c = p) xs) + (if v = p then 1 else 0)"
  by (induction xs arbitrary: j) (auto split: nat.splits)

lemma count_mark_place:
  assumes "board3x3 b" "i < 3" "j < 3" "b ! i ! j \<noteq> p"
  shows "count_mark (place b i j v) p = count_mark b p + (if v = p then 1 else 0)"
proof -
  from assms(1,2) have i: "i < length b" and j: "j < length (b ! i)"
    using assms(3) by (auto simp: board3x3_def list_all_iff)
  have b: "b = take i b @ b ! i # drop (Suc i) b"
    using i by (rule id_take_nth_drop)
  have "place b i j v = take i b @ (b ! i)[j := v] # drop (Suc i) b"
    unfolding place_def using i by (rule upd_conv_take_nth_drop)
  then have "count_mark (place b i j v) p =
      length (filter (\<lambda>c. c = p) (concat (take i b)))
      + length (filter (\<lambda>c. c = p) ((b ! i)[j := v]))
      + length (filter (\<lambda>c. c = p) (concat (drop (Suc i) b)))"
    by (simp add: count_mark_def)
  also have "\<dots> = length (filter (\<lambda>c. c = p) (concat (take i b)))
      + length (filter (\<lambda>c. c = p) (b ! i))
      + length (filter (\<lambda>c. c = p) (concat (drop (Suc i) b))) + (if v = p then 1 else 0)"
    using filter_update_count [OF j assms(4), of v] by simp
  also have "\<dots> = length (filter (\<lambda>c. c = p) (concat (take i b @ b ! i # drop (Suc i) b))) + (if v = p then 1 else 0)"
    by simp
  also have "\<dots> = count_mark b p + (if v = p then 1 else 0)"
    using b by (simp add: count_mark_def)
  finally show ?thesis .
qed

lemma cells_ok_place:
  assumes "cells_ok b" "v = blank \<or> v = markX \<or> v = markO"
  shows "cells_ok (place b i j v)"
proof (cases "i < length b")
  case True
  then have "b ! i \<in> set b" by simp
  with assms(1) have r: "\<forall>c \<in> set (b ! i). c = blank \<or> c = markX \<or> c = markO"
    by (auto simp: cells_ok_def list_all_iff)
  have "\<forall>c \<in> set ((b ! i)[j := v]). c = blank \<or> c = markX \<or> c = markO"
    using r assms(2) set_update_subset_insert [of "b ! i" j v] by blast
  with assms(1) show ?thesis
    using set_update_subset_insert [of b i "(b ! i)[j := v]"]
    by (auto simp: cells_ok_def place_def list_all_iff)
next
  case False
  with assms(1) show ?thesis by (simp add: place_def list_update_beyond)
qed


lemma turn_inv_init: "turn_inv Game_init None"
  by (simp add: turn_inv_def Game_init_def Board_init_def board3x3_def cells_ok_def count_mark_def
      numeral_3_eq_3)

lemma turn_inv_pass:
  assumes "turn_inv g None" "playGame_A_body g inp = (g', r)"
  shows "turn_inv g' r"
proof (cases inp)
  case Malformed
  with assms show ?thesis by (simp add: playGame_A_body_def)
next
  case (Move row col)
  show ?thesis
  proof (cases "validateEntry_A (board g) row col")
    case False
    with assms Move show ?thesis by (simp add: playGame_A_body_def)
  next
    case True
    then have rc: "nat row < 3" "nat col < 3" "board g ! nat row ! nat col = blank"
      by (auto simp: validateEntry_A_def split: if_splits)
    from assms(1) have b: "board3x3 (board g)" "cells_ok (board g)"
      and t: "turn g = markX \<or> turn g = markO"
      by (auto simp: turn_inv_def)
    let ?b = "place (board g) (nat row) (nat col) (turn g)"
    have b': "board3x3 ?b" "cells_ok ?b"
      using b t by (auto intro: board3x3_place cells_ok_place)
    have cx: "count_mark ?b markX = count_mark (board g) markX + (if turn g = markX then 1 else 0)"
      using count_mark_place [OF b(1) rc(1,2), of markX "turn g"] rc(3) by simp
    have co: "count_mark ?b markO = count_mark (board g) markO + (if turn g = markO then 1 else 0)"
      using count_mark_place [OF b(1) rc(1,2), of markO "turn g"] rc(3) by simp
    from assms Move True b' cx co show ?thesis
      by (auto simp: playGame_A_body_def turn_inv_def Let_def switchPlayer_def split: if_splits)
  qed
qed

lemma reachable_A_inv: "reachable_A g r \<Longrightarrow> turn_inv g r"
  by (induction rule: reachable_A.induct) (auto intro: turn_inv_init turn_inv_pass)

section \<open>The fallback move and the loader\<close>

lemma set_available: "set (available c) = {(i, j). (i, j) \<in> set cells \<and> c ! i ! j = blank}"
  by (auto simp: available_def in_cells)

lemma available_valid: "(i, j) \<in> set (available c) \<Longrightarrow> validateEntry c (int i) (int j)"
  by (auto simp: set_available in_cells validateEntry_def)

lemma py_ints_Some:
  "list_all (\<lambda>t. py_int t \<noteq> None) ts \<Longrightarrow> py_ints ts = Some (map (\<lambda>t. the (py_int t)) ts)"
  by (induction ts) auto

lemma py_ints_None:
  "\<not> list_all (\<lambda>t. py_int t \<noteq> None) ts \<Longrightarrow> py_ints ts = None"
  by (induction ts) (auto split: option.splits)

lemma ten_fields: "length ps = 10 \<Longrightarrow> ps = take 9 ps @ [ps ! 9]"
  by (simp add: take_Suc_conv_app_nth [of 9 ps, symmetric])

lemma list_all_ten:
  assumes "length ps = 10"
  shows "list_all P ps \<longleftrightarrow> list_all P (take 9 ps) \<and> P (ps ! 9)"
proof -
  have "list_all P ps \<longleftrightarrow> list_all P (take 9 ps @ [ps ! 9])"
    using ten_fields [OF assms] by simp
  then show ?thesis by simp
qed

lemma load_dataset_loop_ok:
  assumes "list_all (\<lambda>line. well_formed_line line \<longrightarrow> list_all (\<lambda>t. py_int t \<noteq> None) (line_fields line)) ls"
  shows "load_dataset_loop ls X y =
     Inr (X @ map (\<lambda>line. map (\<lambda>t. the (py_int t)) (take 9 (line_fields line))) (filter well_formed_line ls),
          y @ map (\<lambda>line. the (py_int (line_fields line ! 9))) (filter well_formed_line ls))"
  using assms
proof (induction ls arbitrary: X y)
  case Nil
  then show ?case by simp
next
  case (Cons line ls)
  show ?case
  proof (cases "well_formed_line line")
    case False
    with Cons show ?thesis
      by (simp add: well_formed_line_def line_fields_def Let_def)
  next
    case True
    then have len: "length (line_fields line) = 10" by (simp add: well_formed_line_def)
    from Cons.prems True have "list_all (\<lambda>t. py_int t \<noteq> None) (line_fields line)" by simp
    then have "list_all (\<lambda>t. py_int t \<noteq> None) (take 9 (line_fields line))" "py_int (line_fields line ! 9) \<noteq> None"
      by (simp_all add: list_all_ten [OF len])
    with Cons True len py_ints_Some [of "take 9 (line_fields line)"] show ?thesis
      by (auto simp: well_formed_line_def line_fields_def Let_def)
  qed
qed

lemma load_dataset_loop_bad:
  assumes "\<not> list_all (\<lambda>line. well_formed_line line \<longrightarrow> list_all (\<lambda>t. py_int t \<noteq> None) (line_fields line)) ls"
  shows "load_dataset_loop ls X y = Inl ValueError"
  using assms
proof (induction ls arbitrary: X y)
  case Nil
  then show ?case by simp
next
  case (Cons line ls)
  show ?case
  proof (cases "well_formed_line line")
    case False
    with Cons show ?thesis
      by (simp add: well_formed_line_def line_fields_def Let_def)
  next
    case True
    then have len: "length (line_fields line) = 10" by (simp add: well_formed_line_def)
    show ?thesis
    proof (cases "list_all (\<lambda>t. py_int t \<noteq> None) (line_fields line)")
      case False
      then have "\<not> list_all (\<lambda>t. py_int t \<noteq> None) (take 9 (line_fields line)) \<or> py_int (line_fields line ! 9) = None"
        by (simp add: list_all_ten [OF len])
      with len py_ints_None [of "take 9 (line_fields line)"] show ?thesis
        by (auto simp: line_fields_def Let_def split: option.splits)
    next
      case ok: True
      then have "list_all (\<lambda>t. py_int t \<noteq> None) (take 9 (line_fields line))" "py_int (line_fields line ! 9) \<noteq> None"
        by (simp_all add: list_all_ten [OF len])
      with Cons True ok len py_ints_Some [of "take 9 (line_fields line)"] show ?thesis
        by (auto simp: well_formed_line_def line_fields_def Let_def)
    qed
  qed
qed

lemma filter_well_formed_ok:
  "list_all (\<lambda>line. well_formed_line line \<longrightarrow> P line) (filter well_formed_line ls)
   \<longleftrightarrow> list_all (\<lambda>line. well_formed_line line \<longrightarrow> P line) ls"
  by (induction ls) auto

section \<open>The second evaluator agrees with the search\<close>

lemma ucells_cells: "ucells = cells"
  by (simp add: ucells_def cells_eq numeral_2_eq_2)

lemma abs_cell_eq [simp]:
  "abs_cell c = SqBlank \<longleftrightarrow> c = blank" "abs_cell c = SqX \<longleftrightarrow> c = markX" "abs_cell c = SqO \<longleftrightarrow> c = markO"
  by (auto simp: abs_cell_def)

lemma win_sq_abs:
  assumes "board3x3 b"
  shows "win_sq SqO (abs_board b) = checkWinState b markO" "win_sq SqX (abs_board b) = checkWinState b markX"
proof -
  from assms obtain a1 a2 a3 b1 b2 b3 c1 c2 c3 where "b = [[a1, a2, a3], [b1, b2, b3], [c1, c2, c3]]"
    by (rule board3x3E)
  then show "win_sq SqO (abs_board b) = checkWinState b markO" "win_sq SqX (abs_board b) = checkWinState b markX"
    by (simp_all add: abs_board_def checkWinState_def upt3)
qed

lemma full_row_abs: "full_row (map abs_cell r) = list_all (\<lambda>c. c \<noteq> blank) r"
  by (induction r) auto

lemma full_sq_abs: "full_sq (abs_board b) = checkFull b"
  by (induction b) (auto simp: abs_board_def checkFull_def full_row_abs)

lemma abs_board_place: "abs_board (place b i j v) = place_sq (abs_board b) i j (abs_cell v)"
proof (cases "i < length b")
  case True
  then show ?thesis by (simp add: abs_board_def place_def place_sq_def map_update)
next
  case False
  then show ?thesis by (simp add: abs_board_def place_def place_sq_def list_update_beyond)
qed

lemma abs_board_nth:
  "board3x3 b \<Longrightarrow> (i, j) \<in> set cells \<Longrightarrow> abs_board b ! i ! j = abs_cell (b ! i ! j)"
  by (auto simp: board3x3_def list_all_iff in_cells abs_board_def)

lemma abs_cell_mover: "abs_cell (mover m) = (if m then SqO else SqX)"
  by (simp add: mover_def)

lemma score_less_py_max: "score_less t (py_max a b) \<longleftrightarrow> score_less t a \<or> score_less t b"
  by (cases t; cases a; cases b) (auto simp: py_max_def)

lemma score_less_py_min: "score_less t (py_min a b) \<longleftrightarrow> score_less t a \<and> score_less t b"
  by (cases t; cases a; cases b) (auto simp: py_min_def)

lemma score_less_foldl_max:
  "score_less t (foldl py_max a xs) \<longleftrightarrow> score_less t a \<or> (\<exists>s \<in> set xs. score_less t s)"
  by (induction xs arbitrary: a) (auto simp: score_less_py_max)

lemma score_less_foldl_min:
  "score_less t (foldl py_min a xs) \<longleftrightarrow> score_less t a \<and> (\<forall>s \<in> set xs. score_less t s)"
  by (induction xs arbitrary: a) (auto simp: score_less_py_min)

lemma reaches_loop_scan:
  assumes b: "board3x3 b" and cs: "set cs \<subseteq> set cells"
    and IH: "\<And>i j. (i, j) \<in> set cs \<Longrightarrow> b ! i ! j = blank \<Longrightarrow>
       reaches n t (\<not> m) (abs_board (place b i j (mover m)))
         = score_less (threshold t) (minimax_score n (place b i j (mover m)) (\<not> m))"
  shows "reaches_loop n t m cs (abs_board b) =
     (if m then (\<exists>s \<in> set (scan_scores n m cs b). score_less (threshold t) s)
      else (\<forall>s \<in> set (scan_scores n m cs b). score_less (threshold t) s))"
  using cs IH
proof (induction cs)
  case Nil
  then show ?case by (simp add: scan_scores_def)
next
  case (Cons c cs)
  obtain i j where c: "c = (i, j)" by (cases c)
  with Cons.prems(1) have ij: "(i, j) \<in> set cells" and cs': "set cs \<subseteq> set cells" by auto
  have rest: "reaches_loop n t m cs (abs_board b) =
     (if m then (\<exists>s \<in> set (scan_scores n m cs b). score_less (threshold t) s)
      else (\<forall>s \<in> set (scan_scores n m cs b). score_less (threshold t) s))"
    using cs' Cons.prems(2) by (intro Cons.IH) auto
  have cell: "abs_board b ! i ! j = SqBlank \<longleftrightarrow> b ! i ! j = blank"
    using abs_board_nth [OF b ij] by simp
  show ?case
  proof (cases "b ! i ! j = blank")
    case False
    with rest cell c show ?thesis by (simp add: scan_scores_def)
  next
    case True
    have child: "reaches n t (\<not> m) (place_sq (abs_board b) i j (if m then SqO else SqX))
        = score_less (threshold t) (minimax_score n (place b i j (mover m)) (\<not> m))"
      using Cons.prems(2) [of i j] c True by (simp add: abs_board_place abs_cell_mover)
    from True have sc: "scan_scores n m ((i, j) # cs) b
        = minimax_score n (place b i j (mover m)) (\<not> m) # scan_scores n m cs b"
      by (simp add: scan_scores_def)
    show ?thesis
    proof (cases m)
      case True
      with child have "reaches n t False (place_sq (abs_board b) i j SqO)
          = score_less (threshold t) (minimax_score n (place b i j (mover m)) (\<not> m))"
        by simp
      with True rest cell sc \<open>b ! i ! j = blank\<close> show ?thesis
        by (simp add: c)
    next
      case False
      with child have "reaches n t True (place_sq (abs_board b) i j SqX)
          = score_less (threshold t) (minimax_score n (place b i j (mover m)) (\<not> m))"
        by simp
      with False rest cell sc \<open>b ! i ! j = blank\<close> show ?thesis
        by (simp add: c)
    qed
  qed
qed

lemma minimax_score_loop:
  assumes "board3x3 b" "nblank b < Suc n"
    "\<not> checkWinState b markO" "\<not> checkWinState b markX" "\<not> checkFull b"
  shows "minimax_score (Suc n) b m
     = foldl (if m then py_max else py_min) (if m then NegInf else PosInf) (scan_scores n m cells b)"
proof -
  have "minimax_loop n cells m best b =
      Some (foldl (if m then py_max else py_min) best (scan_scores n m cells b), b)" for best
  proof (rule minimax_loop_scan)
    show "\<exists>s. minimax n b' m' = Some (s, b')" if "board3x3 b'" "nblank b' < n" for b' m'
      using minimax_total [OF that] by blast
  qed (use assms in auto)
  with assms(3-5) show ?thesis by (cases m) (simp_all add: minimax_score_def)
qed

lemma reaches_minimax:
  "board3x3 b \<Longrightarrow> nblank b < n \<Longrightarrow>
   reaches n t m (abs_board b) = score_less (threshold t) (minimax_score n b m)"
proof (induction n arbitrary: b m)
  case 0
  then show ?case by simp
next
  case (Suc n)
  show ?case
  proof (cases "checkWinState b markO \<or> checkWinState b markX \<or> checkFull b")
    case True
    with Suc.prems(1) show ?thesis
      by (auto simp: win_sq_abs full_sq_abs minimax_score_def threshold_def)
  next
    case False
    have "reaches_loop n t m cells (abs_board b) =
       (if m then (\<exists>s \<in> set (scan_scores n m cells b). score_less (threshold t) s)
        else (\<forall>s \<in> set (scan_scores n m cells b). score_less (threshold t) s))"
    proof (rule reaches_loop_scan [OF Suc.prems(1) subset_refl])
      fix i j assume ij: "(i, j) \<in> set cells" "b ! i ! j = blank"
      then have "nblank (place b i j (mover m)) < n"
        using nblank_place [OF Suc.prems(1), of i j "mover m"] Suc.prems(2) by (simp add: in_cells)
      with Suc.prems(1) show "reaches n t (\<not> m) (abs_board (place b i j (mover m)))
         = score_less (threshold t) (minimax_score n (place b i j (mover m)) (\<not> m))"
        by (intro Suc.IH board3x3_place)
    qed
    moreover have "minimax_score (Suc n) b m
        = foldl (if m then py_max else py_min) (if m then NegInf else PosInf) (scan_scores n m cells b)"
      using Suc.prems False by (intro minimax_score_loop) auto
    ultimately show ?thesis
      using False Suc.prems(1)
      by (cases m)
        (simp_all add: win_sq_abs full_sq_abs ucells_cells score_less_foldl_max score_less_foldl_min threshold_def)
  qed
qed

lemma fast_score_minimax:
  assumes "board3x3 b" "nblank b < n"
  shows "fast_score n m (abs_board b) = minimax_score n b m"
proof -
  from minimax_total [OF assms, of m] have "minimax_score n b m \<in> unit_scores"
    by (auto simp: minimax_score_def)
  then show ?thesis
    unfolding fast_score_def reaches_minimax [OF assms]
    by (auto simp: unit_scores_def threshold_def)
qed

lemma minimax_loop_Suc:
  assumes IH: "\<And>b m r. minimax n b m = Some r \<Longrightarrow> minimax (Suc n) b m = Some r"
    and "minimax_loop n cs m best b = Some r"
  shows "minimax_loop (Suc n) cs m best b = Some r"
  using assms(2)
proof (induction cs arbitrary: best b)
  case Nil
  then show ?case by simp
next
  case (Cons c cs)
  obtain i j where c: "c = (i, j)" by (cases c)
  show ?case
  proof (cases "b ! i ! j = blank")
    case False
    with Cons c show ?thesis by simp
  next
    case True
    let ?c = "place b i j (if m then markO else markX)"
    from Cons.prems c True obtain sc c' where r: "minimax n ?c (\<not> m) = Some (sc, c')"
      by (auto split: option.splits)
    from Cons.prems have "minimax_loop n cs m (if m then py_max best sc else py_min best sc)
        (place c' i j blank) = Some r"
      by (simp add: c True r)
    then have "minimax_loop (Suc n) cs m (if m then py_max best sc else py_min best sc)
        (place c' i j blank) = Some r"
      by (rule Cons.IH)
    with IH [OF r] True c show ?thesis by simp
  qed
qed

lemma minimax_Suc: "minimax n b m = Some r \<Longrightarrow> minimax (Suc n) b m = Some r"
proof (induction n arbitrary: b m r)
  case 0
  then show ?case by simp
next
  case (Suc n)
  from Suc.prems show ?case
    by (auto split: if_splits intro: minimax_loop_Suc Suc.IH simp del: minimax.simps(2) simp add: minimax.simps(2) [of n] minimax.simps(2) [of "Suc n"])
qed

lemma minimax_mono:
  assumes "n \<le> n'" "minimax n b m = Some r"
  shows "minimax n' b m = Some r"
  using assms(1)
proof (induction rule: dec_induct)
  case base
  show ?case by (rule assms(2))
next
  case (step k)
  then show ?case by (intro minimax_Suc)
qed

lemma minimax_score_fuel:
  assumes "board3x3 b" "nblank b < n" "n \<le> n'"
  shows "minimax_score n' b m = minimax_score n b m"
proof -
  from minimax_total [OF assms(1,2), of m] obtain s where s: "minimax n b m = Some (s, b)"
    by blast
  from minimax_mono [OF assms(3) s] s show ?thesis
    by (simp add: minimax_score_def)
qed

lemma map_filter_cong:
  assumes "\<And>x. x \<in> set xs \<Longrightarrow> P x = Q x" "\<And>x. x \<in> set xs \<Longrightarrow> P x \<Longrightarrow> f x = g x"
  shows "map f (filter P xs) = map g (filter Q xs)"
  using assms by (induction xs) auto

lemma move_scores_fast:
  assumes b: "board3x3 b" and n: "nblank b \<le> k" "k \<le> n"
  shows "move_scores n m cells b =
     map (\<lambda>(i, j). ((i, j), fast_score k (\<not> m) (place_sq (abs_board b) i j (if m then SqO else SqX))))
       (filter (\<lambda>(i, j). abs_board b ! i ! j = SqBlank) ucells)"
  unfolding move_scores_def ucells_cells
proof (rule map_filter_cong)
  fix x assume x: "x \<in> set cells"
  obtain i j where ij: "x = (i, j)" by (cases x)
  from x ij abs_board_nth [OF b, of i j]
  show "(case x of (i, j) \<Rightarrow> b ! i ! j = blank) = (case x of (i, j) \<Rightarrow> abs_board b ! i ! j = SqBlank)"
    by simp
  assume "case x of (i, j) \<Rightarrow> b ! i ! j = blank"
  with ij have bl: "b ! i ! j = blank" by simp
  let ?c = "place b i j (mover m)"
  have c3: "board3x3 ?c" using b by (rule board3x3_place)
  have cn: "nblank ?c < k"
    using nblank_place [OF b, of i j "mover m"] x ij bl n(1) by (simp add: in_cells)
  have "minimax_score n ?c (\<not> m) = minimax_score k ?c (\<not> m)"
    using c3 cn n(2) by (rule minimax_score_fuel)
  also have "\<dots> = fast_score k (\<not> m) (abs_board ?c)"
    using fast_score_minimax [OF c3 cn] by simp
  finally show "(case x of (i, j) \<Rightarrow> ((i, j), minimax_score n (place b i j (mover m)) (\<not> m)))
      = (case x of (i, j) \<Rightarrow> ((i, j), fast_score k (\<not> m) (place_sq (abs_board b) i j (if m then SqO else SqX))))"
    by (simp add: ij abs_board_place abs_cell_mover)
qed

lemma getComputerMove_fast:
  assumes "board3x3 b" "10 \<le> n"
  shows "getComputerMove n b = Some (fast_move True 10 (abs_board b), b)"
proof -
  from nblank_le9 [OF assms(1)] have k: "nblank b \<le> 10" by simp
  with assms(2) have "nblank b \<le> n" by simp
  with assms(1) have "getComputerMove n b = Some (keep_first True (move_scores n True cells b) NegInf None, b)"
    unfolding getComputerMove_def by (intro getComputerMove_loop_scan) auto
  then show ?thesis
    by (simp add: fast_move_def move_scores_fast [OF assms(1) k assms(2)])
qed

lemma getMinimizerMove_fast:
  assumes "board3x3 b" "10 \<le> n"
  shows "getMinimizerMove n b = Some (fast_move False 10 (abs_board b), b)"
proof -
  from nblank_le9 [OF assms(1)] have k: "nblank b \<le> 10" by simp
  with assms(2) have "nblank b \<le> n" by simp
  with assms(1) have "getMinimizerMove n b = Some (keep_first False (move_scores n False cells b) PosInf None, b)"
    unfolding getMinimizerMove_def by (intro getMinimizerMove_loop_scan) auto
  then show ?thesis
    by (simp add: fast_move_def move_scores_fast [OF assms(1) k assms(2)])
qed

section \<open>The self-play, pass by pass\<close>

lemma first_move_score_00: "fast_score 10 True [[SqX, SqBlank, SqBlank], [SqBlank, SqBlank, SqBlank], [SqBlank, SqBlank, SqBlank]] = Val 0"
  by code_simp

lemma first_move_score_01: "fast_score 10 True [[SqBlank, SqX, SqBlank], [SqBlank, SqBlank, SqBlank], [SqBlank, SqBlank, SqBlank]] = Val 0"
  by code_simp

lemma first_move_score_02: "fast_score 10 True [[SqBlank, SqBlank, SqX], [SqBlank, SqBlank, SqBlank], [SqBlank, SqBlank, SqBlank]] = Val 0"
  by code_simp

lemma first_move_score_10: "fast_score 10 True [[SqBlank, SqBlank, SqBlank], [SqX, SqBlank, SqBlank], [SqBlank, SqBlank, SqBlank]] = Val 0"
  by code_simp

lemma first_move_score_11: "fast_score 10 True [[SqBlank, SqBlank, SqBlank], [SqBlank, SqX, SqBlank], [SqBlank, SqBlank, SqBlank]] = Val 0"
  by code_simp

lemma first_move_score_12: "fast_score 10 True [[SqBlank, SqBlank, SqBlank], [SqBlank, SqBlank, SqX], [SqBlank, SqBlank, SqBlank]] = Val 0"
  by code_simp

lemma first_move_score_20: "fast_score 10 True [[SqBlank, SqBlank, SqBlank], [SqBlank, SqBlank, SqBlank], [SqX, SqBlank, SqBlank]] = Val 0"
  by code_simp

lemma first_move_score_21: "fast_score 10 True [[SqBlank, SqBlank, SqBlank], [SqBlank, SqBlank, SqBlank], [SqBlank, SqX, SqBlank]] = Val 0"
  by code_simp

lemma first_move_score_22: "fast_score 10 True [[SqBlank, SqBlank, SqBlank], [SqBlank, SqBlank, SqBlank], [SqBlank, SqBlank, SqX]] = Val 0"
  by code_simp

lemma fast_move_0: "fast_move False 10 [[SqBlank, SqBlank, SqBlank], [SqBlank, SqBlank, SqBlank], [SqBlank, SqBlank, SqBlank]] = Some (0, 0)"
  by (simp add: fast_move_def ucells_def place_sq_def first_move_score_00 first_move_score_01 first_move_score_02 first_move_score_10 first_move_score_11 first_move_score_12 first_move_score_20 first_move_score_21 first_move_score_22)

lemma fast_move_1: "fast_move True 10 [[SqX, SqBlank, SqBlank], [SqBlank, SqBlank, SqBlank], [SqBlank, SqBlank, SqBlank]] = Some (1, 1)"
  by code_simp

lemma fast_move_2: "fast_move False 10 [[SqX, SqBlank, SqBlank], [SqBlank, SqO, SqBlank], [SqBlank, SqBlank, SqBlank]] = Some (0, 1)"
  by code_simp

lemma fast_move_3: "fast_move True 10 [[SqX, SqX, SqBlank], [SqBlank, SqO, SqBlank], [SqBlank, SqBlank, SqBlank]] = Some (0, 2)"
  by code_simp

lemma fast_move_4: "fast_move False 10 [[SqX, SqX, SqO], [SqBlank, SqO, SqBlank], [SqBlank, SqBlank, SqBlank]] = Some (2, 0)"
  by code_simp

lemma fast_move_5: "fast_move True 10 [[SqX, SqX, SqO], [SqBlank, SqO, SqBlank], [SqX, SqBlank, SqBlank]] = Some (1, 0)"
  by code_simp

lemma fast_move_6: "fast_move False 10 [[SqX, SqX, SqO], [SqO, SqO, SqBlank], [SqX, SqBlank, SqBlank]] = Some (1, 2)"
  by code_simp

lemma fast_move_7: "fast_move True 10 [[SqX, SqX, SqO], [SqO, SqO, SqX], [SqX, SqBlank, SqBlank]] = Some (2, 1)"
  by code_simp

lemma fast_move_8: "fast_move False 10 [[SqX, SqX, SqO], [SqO, SqO, SqX], [SqX, SqO, SqBlank]] = Some (2, 2)"
  by code_simp

lemma selfPlay_pass_0:
  assumes "10 \<le> n"
  shows "selfPlay_body n \<lparr>board = [[blank, blank, blank], [blank, blank, blank], [blank, blank, blank]], turn = markX\<rparr>
     = Some (\<lparr>board = [[markX, blank, blank], [blank, blank, blank], [blank, blank, blank]], turn = markO\<rparr>, None)"
proof -
  have h: "board3x3 [[blank, blank, blank], [blank, blank, blank], [blank, blank, blank]]"
    by (simp add: board3x3_def)
  have a: "abs_board [[blank, blank, blank], [blank, blank, blank], [blank, blank, blank]] = [[SqBlank, SqBlank, SqBlank], [SqBlank, SqBlank, SqBlank], [SqBlank, SqBlank, SqBlank]]"
    by (simp add: abs_board_def abs_cell_def)
  show ?thesis
    by (simp add: selfPlay_body_def getMinimizerMove_fast [OF h assms] getComputerMove_fast [OF h assms]
        a fast_move_0 place_def playGame_B_end_def checkEnd_def checkWin_def checkFull_def
        switchPlayer_def upt3)
qed

lemma selfPlay_pass_1:
  assumes "10 \<le> n"
  shows "selfPlay_body n \<lparr>board = [[markX, blank, blank], [blank, blank, blank], [blank, blank, blank]], turn = markO\<rparr>
     = Some (\<lparr>board = [[markX, blank, blank], [blank, markO, blank], [blank, blank, blank]], turn = markX\<rparr>, None)"
proof -
  have h: "board3x3 [[markX, blank, blank], [blank, blank, blank], [blank, blank, blank]]"
    by (simp add: board3x3_def)
  have a: "abs_board [[markX, blank, blank], [blank, blank, blank], [blank, blank, blank]] = [[SqX, SqBlank, SqBlank], [SqBlank, SqBlank, SqBlank], [SqBlank, SqBlank, SqBlank]]"
    by (simp add: abs_board_def abs_cell_def)
  show ?thesis
    by (simp add: selfPlay_body_def getMinimizerMove_fast [OF h assms] getComputerMove_fast [OF h assms]
        a fast_move_1 place_def playGame_B_end_def checkEnd_def checkWin_def checkFull_def
        switchPlayer_def upt3)
qed

lemma selfPlay_pass_2:
  assumes "10 \<le> n"
  shows "selfPlay_body n \<lparr>board = [[markX, blank, blank], [blank, markO, blank], [blank, blank, blank]], turn = markX\<rparr>
     = Some (\<lparr>board = [[markX, markX, blank], [blank, markO, blank], [blank, blank, blank]], turn = markO\<rparr>, None)"
proof -
  have h: "board3x3 [[markX, blank, blank], [blank, markO, blank], [blank, blank, blank]]"
    by (simp add: board3x3_def)
  have a: "abs_board [[markX, blank, blank], [blank, markO, blank], [blank, blank, blank]] = [[SqX, SqBlank, SqBlank], [SqBlank, SqO, SqBlank], [SqBlank, SqBlank, SqBlank]]"
    by (simp add: abs_board_def abs_cell_def)
  show ?thesis
    by (simp add: selfPlay_body_def getMinimizerMove_fast [OF h assms] getComputerMove_fast [OF h assms]
        a fast_move_2 place_def playGame_B_end_def checkEnd_def checkWin_def checkFull_def
        switchPlayer_def upt3)
qed

lemma selfPlay_pass_3:
  assumes "10 \<le> n"
  shows "selfPlay_body n \<lparr>board = [[markX, markX, blank], [blank, markO, blank], [blank, blank, blank]], turn = markO\<rparr>
     = Some (\<lparr>board = [[markX, markX, markO], [blank, markO, blank], [blank, blank, blank]], turn = markX\<rparr>, None)"
proof -
  have h: "board3x3 [[markX, markX, blank], [blank, markO, blank], [blank, blank, blank]]"
    by (simp add: board3x3_def)
  have a: "abs_board [[markX, markX, blank], [blank, markO, blank], [blank, blank, blank]] = [[SqX, SqX, SqBlank], [SqBlank, SqO, SqBlank], [SqBlank, SqBlank, SqBlank]]"
    by (simp add: abs_board_def abs_cell_def)
  show ?thesis
    by (simp add: selfPlay_body_def getMinimizerMove_fast [OF h assms] getComputerMove_fast [OF h assms]
        a fast_move_3 place_def playGame_B_end_def checkEnd_def checkWin_def checkFull_def
        switchPlayer_def upt3)
qed

lemma selfPlay_pass_4:
  assumes "10 \<le> n"
  shows "selfPlay_body n \<lparr>board = [[markX, markX, markO], [blank, markO, blank], [blank, blank, blank]], turn = markX\<rparr>
     = Some (\<lparr>board = [[markX, markX, markO], [blank, markO, blank], [markX, blank, blank]], turn = markO\<rparr>, None)"
proof -
  have h: "board3x3 [[markX, markX, markO], [blank, markO, blank], [blank, blank, blank]]"
    by (simp add: board3x3_def)
  have a: "abs_board [[markX, markX, markO], [blank, markO, blank], [blank, blank, blank]] = [[SqX, SqX, SqO], [SqBlank, SqO, SqBlank], [SqBlank, SqBlank, SqBlank]]"
    by (simp add: abs_board_def abs_cell_def)
  show ?thesis
    by (simp add: selfPlay_body_def getMinimizerMove_fast [OF h assms] getComputerMove_fast [OF h assms]
        a fast_move_4 place_def playGame_B_end_def checkEnd_def checkWin_def checkFull_def
        switchPlayer_def upt3)
qed

lemma selfPlay_pass_5:
  assumes "10 \<le> n"
  shows "selfPlay_body n \<lparr>board = [[markX, markX, markO], [blank, markO, blank], [markX, blank, blank]], turn = markO\<rparr>
     = Some (\<lparr>board = [[markX, markX, markO], [markO, markO, blank], [markX, blank, blank]], turn = markX\<rparr>, None)"
proof -
  have h: "board3x3 [[markX, markX, markO], [blank, markO, blank], [markX, blank, blank]]"
    by (simp add: board3x3_def)
  have a: "abs_board [[markX, markX, markO], [blank, markO, blank], [markX, blank, blank]] = [[SqX, SqX, SqO], [SqBlank, SqO, SqBlank], [SqX, SqBlank, SqBlank]]"
    by (simp add: abs_board_def abs_cell_def)
  show ?thesis
    by (simp add: selfPlay_body_def getMinimizerMove_fast [OF h assms] getComputerMove_fast [OF h assms]
        a fast_move_5 place_def playGame_B_end_def checkEnd_def checkWin_def checkFull_def
        switchPlayer_def upt3)
qed

lemma selfPlay_pass_6:
  assumes "10 \<le> n"
  shows "selfPlay_body n \<lparr>board = [[markX, markX, markO], [markO, markO, blank], [markX, blank, blank]], turn = markX\<rparr>
     = Some (\<lparr>board = [[markX, markX, markO], [markO, markO, markX], [markX, blank, blank]], turn = markO\<rparr>, None)"
proof -
  have h: "board3x3 [[markX, markX, markO], [markO, markO, blank], [markX, blank, blank]]"
    by (simp add: board3x3_def)
  have a: "abs_board [[markX, markX, markO], [markO, markO, blank], [markX, blank, blank]] = [[SqX, SqX, SqO], [SqO, SqO, SqBlank], [SqX, SqBlank, SqBlank]]"
    by (simp add: abs_board_def abs_cell_def)
  show ?thesis
    by (simp add: selfPlay_body_def getMinimizerMove_fast [OF h assms] getComputerMove_fast [OF h assms]
        a fast_move_6 place_def playGame_B_end_def checkEnd_def checkWin_def checkFull_def
        switchPlayer_def upt3)
qed

lemma selfPlay_pass_7:
  assumes "10 \<le> n"
  shows "selfPlay_body n \<lparr>board = [[markX, markX, markO], [markO, markO, markX], [markX, blank, blank]], turn = markO\<rparr>
     = Some (\<lparr>board = [[markX, markX, markO], [markO, markO, markX], [markX, markO, blank]], turn = markX\<rparr>, None)"
proof -
  have h: "board3x3 [[markX, markX, markO], [markO, markO, markX], [markX, blank, blank]]"
    by (simp add: board3x3_def)
  have a: "abs_board [[markX, markX, markO], [markO, markO, markX], [markX, blank, blank]] = [[SqX, SqX, SqO], [SqO, SqO, SqX], [SqX, SqBlank, SqBlank]]"
    by (simp add: abs_board_def abs_cell_def)
  show ?thesis
    by (simp add: selfPlay_body_def getMinimizerMove_fast [OF h assms] getComputerMove_fast [OF h assms]
        a fast_move_7 place_def playGame_B_end_def checkEnd_def checkWin_def checkFull_def
        switchPlayer_def upt3)
qed

lemma selfPlay_pass_8:
  assumes "10 \<le> n"
  shows "selfPlay_body n \<lparr>board = [[markX, markX, markO], [markO, markO, markX], [markX, markO, blank]], turn = markX\<rparr>
     = Some (\<lparr>board = [[markX, markX, markO], [markO, markO, markX], [markX, markO, markX]], turn = markX\<rparr>, Some Draw)"
proof -
  have h: "board3x3 [[markX, markX, markO], [markO, markO, markX], [markX, markO, blank]]"
    by (simp add: board3x3_def)
  have a: "abs_board [[markX, markX, markO], [markO, markO, markX], [markX, markO, blank]] = [[SqX, SqX, SqO], [SqO, SqO, SqX], [SqX, SqO, SqBlank]]"
    by (simp add: abs_board_def abs_cell_def)
  show ?thesis
    by (simp add: selfPlay_body_def getMinimizerMove_fast [OF h assms] getComputerMove_fast [OF h assms]
        a fast_move_8 place_def playGame_B_end_def checkEnd_def checkWin_def checkFull_def
        switchPlayer_def upt3)
qed

lemma selfPlay_run:
  assumes "10 \<le> n"
  shows "selfPlay (9 + k) n Game_init = Some (selfPlay_history, Draw)"
proof -
  have e: "9 + k = Suc (Suc (Suc (Suc (Suc (Suc (Suc (Suc (Suc k))))))))" by simp
  show ?thesis
    unfolding e using assms
    by (simp add: Game_init_def Board_init_def numeral_3_eq_3 selfPlay_history_def
        selfPlay_pass_0 selfPlay_pass_1 selfPlay_pass_2 selfPlay_pass_3 selfPlay_pass_4
        selfPlay_pass_5 selfPlay_pass_6 selfPlay_pass_7 selfPlay_pass_8)
qed


section \<open>The claims\<close>

text \<open>
  C7. For all integers \<open>row\<close> and \<open>col\<close>, \<^verbatim>\<open>validateEntry(row, col)\<close> is true exactly
  when both coordinates lie in \<open>0..2\<close> and the cell they name is blank, in Part A as in
  Parts B and C. Out-of-range pairs such as \<open>(3, 0)\<close> and \<open>(-1, 1)\<close> are rejected on
  every board, an occupied cell in range is rejected, and a blank cell in range is
  accepted.
\<close>

theorem validateEntry_iff_blank_in_range:
  "validateEntry c row col = (0 \<le> row \<and> row < 3 \<and> 0 \<le> col \<and> col < 3 \<and> c ! nat row ! nat col = blank)
   \<and> validateEntry_A c row col = validateEntry c row col
   \<and> \<not> validateEntry c 3 0 \<and> \<not> validateEntry c (- 1) 1
   \<and> \<not> validateEntry_A c 3 0 \<and> \<not> validateEntry_A c (- 1) 1"
  by (auto simp: validateEntry_def validateEntry_A_def)

theorem validateEntry_iff_blank_in_range_witness:
  "validateEntry [[markX, blank, blank], [blank, markO, blank], [blank, blank, blank]] 0 1
   \<and> \<not> validateEntry [[markX, blank, blank], [blank, markO, blank], [blank, blank, blank]] 0 0
   \<and> \<not> validateEntry [[markX, blank, blank], [blank, markO, blank], [blank, blank, blank]] 1 1
   \<and> \<not> validateEntry [[markX, blank, blank], [blank, markO, blank], [blank, blank, blank]] 0 3
   \<and> validateEntry_A [[markX, blank, blank], [blank, markO, blank], [blank, blank, blank]] 2 2"
  using validateEntry_iff_blank_in_range
    [of "[[markX, blank, blank], [blank, markO, blank], [blank, blank, blank]]"]
  by simp

text \<open>
  C9. On every board of three rows of three cells, \<^verbatim>\<open>minimax\<close> returns, and what it
  returns is one of the integers -1, 0 and 1, never a sentinel: a recursion depth above
  the number of blank cells is enough, and a board has at most nine of them. The board
  comes back as it went in.
\<close>

theorem minimax_returns_unit_score:
  assumes "board3x3 b" and "nblank b < n"
  shows "nblank b \<le> 9 \<and> (\<exists>v \<in> {- 1, 0, 1}. minimax n b m = Some (Val v, b))"
proof -
  from minimax_total [OF assms] obtain s where "s \<in> unit_scores" "minimax n b m = Some (s, b)"
    by blast
  then have "\<exists>v \<in> {- 1, 0, 1}. minimax n b m = Some (Val v, b)"
    by (auto simp: unit_scores_def)
  with nblank_le9 [OF assms(1)] show ?thesis by simp
qed

theorem minimax_returns_unit_score_witness:
  "board3x3 Board_init \<and> nblank Board_init < 10
   \<and> nblank Board_init \<le> 9 \<and> (\<exists>v \<in> {- 1, 0, 1}. minimax 10 Board_init True = Some (Val v, Board_init))"
proof -
  have h1: "board3x3 Board_init"
    by (simp add: board3x3_def Board_init_def numeral_3_eq_3)
  have h2: "nblank Board_init < 10"
    by (simp add: nblank_def Board_init_def numeral_3_eq_3)
  from h1 h2 minimax_returns_unit_score [OF h1 h2, of True] show ?thesis by simp
qed

text \<open>
  C1. On a board of three rows of three cells, \<^verbatim>\<open>minimax\<close> classifies a decided board
  at once: 1 when O holds a line; otherwise -1 when X holds a line; otherwise 0 when no
  cell is blank. This is the result at every recursion depth from one on, so no
  recursive call is needed for it, whichever side is to move, and the board is returned
  as it was.
\<close>

theorem minimax_terminal_values:
  assumes "board3x3 b"
  shows "(has_line b markO \<longrightarrow> minimax (Suc n) b m = Some (Val 1, b))
       \<and> (\<not> has_line b markO \<and> has_line b markX \<longrightarrow> minimax (Suc n) b m = Some (Val (- 1), b))
       \<and> (\<not> has_line b markO \<and> \<not> has_line b markX \<and> (\<forall>(i, j) \<in> set cells. b ! i ! j \<noteq> blank)
            \<longrightarrow> minimax (Suc n) b m = Some (Val 0, b))"
  using assms by (simp add: checkWinState_has_line checkFull_iff)

theorem minimax_terminal_values_witness:
  "board3x3 [[markO, markO, markO], [markX, markX, blank], [markX, blank, blank]]
   \<and> has_line [[markO, markO, markO], [markX, markX, blank], [markX, blank, blank]] markO
   \<and> minimax (Suc 0) [[markO, markO, markO], [markX, markX, blank], [markX, blank, blank]] False
       = Some (Val 1, [[markO, markO, markO], [markX, markX, blank], [markX, blank, blank]])
   \<and> board3x3 [[markX, markO, markO], [blank, markX, blank], [blank, blank, markX]]
   \<and> \<not> has_line [[markX, markO, markO], [blank, markX, blank], [blank, blank, markX]] markO
   \<and> has_line [[markX, markO, markO], [blank, markX, blank], [blank, blank, markX]] markX
   \<and> minimax (Suc 0) [[markX, markO, markO], [blank, markX, blank], [blank, blank, markX]] True
       = Some (Val (- 1), [[markX, markO, markO], [blank, markX, blank], [blank, blank, markX]])
   \<and> board3x3 [[markX, markO, markX], [markX, markO, markO], [markO, markX, markX]]
   \<and> \<not> has_line [[markX, markO, markX], [markX, markO, markO], [markO, markX, markX]] markO
   \<and> \<not> has_line [[markX, markO, markX], [markX, markO, markO], [markO, markX, markX]] markX
   \<and> list_all (\<lambda>(i, j). [[markX, markO, markX], [markX, markO, markO], [markO, markX, markX]] ! i ! j \<noteq> blank) cells
   \<and> minimax (Suc 0) [[markX, markO, markX], [markX, markO, markO], [markO, markX, markX]] True
       = Some (Val 0, [[markX, markO, markX], [markX, markO, markO], [markO, markX, markX]])"
proof -
  let ?b1 = "[[markO, markO, markO], [markX, markX, blank], [markX, blank, blank]]"
  let ?b2 = "[[markX, markO, markO], [blank, markX, blank], [blank, blank, markX]]"
  let ?b3 = "[[markX, markO, markX], [markX, markO, markO], [markO, markX, markX]]"
  have s: "board3x3 ?b1" "board3x3 ?b2" "board3x3 ?b3"
    by (simp_all add: board3x3_def)
  have l1: "has_line ?b1 markO"
    by (simp add: has_line_def lines_def)
  have l2: "\<not> has_line ?b2 markO" "has_line ?b2 markX"
    by (simp_all add: has_line_def lines_def)
  have l3: "\<not> has_line ?b3 markO" "\<not> has_line ?b3 markX" "\<forall>(i, j) \<in> set cells. ?b3 ! i ! j \<noteq> blank"
    by (simp_all add: has_line_def lines_def cells_eq)
  from s l1 l2 l3
    minimax_terminal_values [OF s(1), of 0 False]
    minimax_terminal_values [OF s(2), of 0 True]
    minimax_terminal_values [OF s(3), of 0 True]
  show ?thesis by (simp add: list_all_iff)
qed

text \<open>
  C4. The search leaves the board as it found it. On a board of three rows of three
  cells, whenever \<^verbatim>\<open>minimax\<close> returns, the board it hands back is the board it was
  given, every mark it placed having been blanked again; the same holds for
  \<^verbatim>\<open>getComputerMove\<close> and the live board \<^verbatim>\<open>self.board.c\<close>. With a recursion depth above
  the number of blank cells both do return.
\<close>

theorem search_restores_board:
  assumes "board3x3 b"
  shows "(minimax n b m = Some (s, b') \<longrightarrow> b' = b)
       \<and> (getComputerMove n b = Some (mv, c') \<longrightarrow> c' = b)
       \<and> (nblank b < n \<longrightarrow> (\<exists>s. minimax n b m = Some (s, b)) \<and> (\<exists>mv. getComputerMove n b = Some (mv, b)))"
proof -
  have "\<exists>s. minimax n b m = Some (s, b)" if "nblank b < n"
    using minimax_total [OF assms that, of m] by blast
  moreover have "\<exists>mv. getComputerMove n b = Some (mv, b)" if "nblank b < n"
    unfolding getComputerMove_def
    using getComputerMove_loop_scan [OF assms, of n cells NegInf None] that by simp
  ultimately show ?thesis
    using minimax_frame [OF assms, of n m s b']
      getComputerMove_loop_frame [OF assms, of n cells NegInf None mv c']
    by (auto simp: getComputerMove_def)
qed

theorem search_restores_board_witness:
  "board3x3 [[markX, markO, markX], [markX, markO, markO], [markO, markX, blank]]
   \<and> nblank [[markX, markO, markX], [markX, markO, markO], [markO, markX, blank]] < 2
   \<and> minimax 2 [[markX, markO, markX], [markX, markO, markO], [markO, markX, blank]] False
       = Some (Val 0, [[markX, markO, markX], [markX, markO, markO], [markO, markX, blank]])
   \<and> getComputerMove 2 [[markX, markO, markX], [markX, markO, markO], [markO, markX, blank]]
       = Some (Some (2, 2), [[markX, markO, markX], [markX, markO, markO], [markO, markX, blank]])"
proof -
  let ?b = "[[markX, markO, markX], [markX, markO, markO], [markO, markX, blank]]"
  have h: "board3x3 ?b" by (simp add: board3x3_def)
  have k: "nblank ?b < 2" by (simp add: nblank_def)
  have m: "minimax 2 ?b False = Some (Val 0, ?b)" by code_simp
  have g: "getComputerMove 2 ?b = Some (Some (2, 2), ?b)" by code_simp
  from search_restores_board [OF h, of 2 False "Val 0" ?b "Some (2, 2)" ?b] h k m g
  show ?thesis by simp
qed

text \<open>
  C2. On a board of three rows of three cells with a blank cell, \<^verbatim>\<open>getComputerMove\<close>
  returns a move, for every recursion depth from the number of blank cells on. Each
  blank cell has a score, the value \<^verbatim>\<open>minimax\<close> returns after O is placed there with the
  minimizer to move, one of -1, 0, 1. The move returned is a blank cell in range, so a
  valid entry; no blank cell scores higher; and every blank cell scanned before it
  scores strictly lower: it is the first cell, in row-major order, with the maximal
  score. The move is a function of the board, and the board is left unchanged.
\<close>

theorem getComputerMove_first_best:
  assumes "board3x3 b" and "\<exists>(i, j) \<in> set cells. b ! i ! j = blank" and "nblank b \<le> n"
  shows "\<exists>i j. getComputerMove n b = Some (Some (i, j), b)
     \<and> validateEntry b (int i) (int j)
     \<and> (\<forall>(i', j') \<in> set cells. b ! i' ! j' = blank \<longrightarrow>
          minimax n (place b i' j' markO) False
            = Some (minimax_score n (place b i' j' markO) False, place b i' j' markO)
          \<and> minimax_score n (place b i' j' markO) False \<in> {Val (- 1), Val 0, Val 1}
          \<and> \<not> score_less (minimax_score n (place b i j markO) False)
                           (minimax_score n (place b i' j' markO) False)
          \<and> (scanned_before (i', j') (i, j) \<longrightarrow>
               score_less (minimax_score n (place b i' j' markO) False)
                          (minimax_score n (place b i j markO) False)))"
proof -
  from assms(1,2) have ne: "\<not> checkFull b" by (auto simp: checkFull_iff)
  from getComputerMove_first_max [OF assms(1,3) ne] obtain c where
    g: "getComputerMove n b = Some (Some c, b)" and c: "c \<in> set cells" "b ! fst c ! snd c = blank"
    and mx: "\<forall>c' \<in> set cells. b ! fst c' ! snd c' = blank \<longrightarrow>
           \<not> score_less (minimax_score n (place b (fst c) (snd c) markO) False)
                         (minimax_score n (place b (fst c') (snd c') markO) False)"
    and fi: "\<forall>c' \<in> set cells. b ! fst c' ! snd c' = blank \<and> scanned_before c' c \<longrightarrow>
           score_less (minimax_score n (place b (fst c') (snd c') markO) False)
                      (minimax_score n (place b (fst c) (snd c) markO) False)"
    by blast
  obtain i j where ij: "c = (i, j)" by (cases c)
  from c ij have v: "validateEntry b (int i) (int j)"
    by (simp add: validateEntry_def in_cells)
  have ch: "minimax n (place b i' j' markO) False
        = Some (minimax_score n (place b i' j' markO) False, place b i' j' markO)
      \<and> minimax_score n (place b i' j' markO) False \<in> {Val (- 1), Val 0, Val 1}"
    if "(i', j') \<in> set cells" "b ! i' ! j' = blank" for i' j'
    using child_search [OF assms(1,3) that, of True False] by (simp add: mover_def unit_scores_def)
  have "minimax n (place b i' j' markO) False
            = Some (minimax_score n (place b i' j' markO) False, place b i' j' markO)
          \<and> minimax_score n (place b i' j' markO) False \<in> {Val (- 1), Val 0, Val 1}
          \<and> \<not> score_less (minimax_score n (place b i j markO) False)
                           (minimax_score n (place b i' j' markO) False)
          \<and> (scanned_before (i', j') (i, j) \<longrightarrow>
               score_less (minimax_score n (place b i' j' markO) False)
                          (minimax_score n (place b i j markO) False))"
    if h: "(i', j') \<in> set cells" "b ! i' ! j' = blank" for i' j'
  proof -
    from mx h have "\<not> score_less (minimax_score n (place b (fst c) (snd c) markO) False)
        (minimax_score n (place b (fst (i', j')) (snd (i', j')) markO) False)"
      by (metis fst_conv snd_conv)
    moreover from fi h have "scanned_before (i', j') c \<longrightarrow>
        score_less (minimax_score n (place b (fst (i', j')) (snd (i', j')) markO) False)
          (minimax_score n (place b (fst c) (snd c) markO) False)"
      by (metis fst_conv snd_conv)
    ultimately show ?thesis using ch [OF h] by (simp add: ij)
  qed
  then have "\<forall>(i', j') \<in> set cells. b ! i' ! j' = blank \<longrightarrow>
          minimax n (place b i' j' markO) False
            = Some (minimax_score n (place b i' j' markO) False, place b i' j' markO)
          \<and> minimax_score n (place b i' j' markO) False \<in> {Val (- 1), Val 0, Val 1}
          \<and> \<not> score_less (minimax_score n (place b i j markO) False)
                           (minimax_score n (place b i' j' markO) False)
          \<and> (scanned_before (i', j') (i, j) \<longrightarrow>
               score_less (minimax_score n (place b i' j' markO) False)
                          (minimax_score n (place b i j markO) False))"
    by blast
  with g v ij show ?thesis by blast
qed

theorem getComputerMove_first_best_witness:
  "board3x3 [[blank, blank, blank], [markX, markO, markX], [blank, markO, markX]]
   \<and> (\<exists>(i, j) \<in> set cells. [[blank, blank, blank], [markX, markO, markX], [blank, markO, markX]] ! i ! j = blank)
   \<and> nblank [[blank, blank, blank], [markX, markO, markX], [blank, markO, markX]] \<le> 4
   \<and> minimax_score 4 (place [[blank, blank, blank], [markX, markO, markX], [blank, markO, markX]] 0 0 markO) False = Val (- 1)
   \<and> minimax_score 4 (place [[blank, blank, blank], [markX, markO, markX], [blank, markO, markX]] 0 1 markO) False = Val 1
   \<and> minimax_score 4 (place [[blank, blank, blank], [markX, markO, markX], [blank, markO, markX]] 0 2 markO) False = Val 1
   \<and> minimax_score 4 (place [[blank, blank, blank], [markX, markO, markX], [blank, markO, markX]] 2 0 markO) False = Val (- 1)
   \<and> scanned_before (0, 1) (0, 2)
   \<and> getComputerMove 4 [[blank, blank, blank], [markX, markO, markX], [blank, markO, markX]]
       = Some (Some (0, 1), [[blank, blank, blank], [markX, markO, markX], [blank, markO, markX]])
   \<and> validateEntry [[blank, blank, blank], [markX, markO, markX], [blank, markO, markX]] 0 1"
proof -
  let ?b = "[[blank, blank, blank], [markX, markO, markX], [blank, markO, markX]]"
  let ?sc = "\<lambda>i j. minimax_score 4 (place ?b i j markO) False"
  have h: "board3x3 ?b" by (simp add: board3x3_def)
  have e: "\<exists>(i, j) \<in> set cells. ?b ! i ! j = blank" by (simp add: cells_eq)
  have k: "nblank ?b \<le> 4" by (simp add: nblank_def)
  have s00: "?sc 0 0 = Val (- 1)" by code_simp
  have s01: "?sc 0 1 = Val 1" by code_simp
  have s02: "?sc 0 2 = Val 1" by code_simp
  have s20: "?sc 2 0 = Val (- 1)" by code_simp
  have sb: "scanned_before (0, 1) (0, 2)" by (simp add: scanned_before_def)
  have c01: "(0, 1) \<in> set cells" "?b ! 0 ! 1 = blank" by (simp_all add: cells_eq)
  from getComputerMove_first_best [OF h e k] obtain i j where
    g: "getComputerMove 4 ?b = Some (Some (i, j), ?b)" and v: "validateEntry ?b (int i) (int j)"
    and all: "\<forall>(i', j') \<in> set cells. ?b ! i' ! j' = blank \<longrightarrow>
          minimax 4 (place ?b i' j' markO) False = Some (?sc i' j', place ?b i' j' markO)
          \<and> ?sc i' j' \<in> {Val (- 1), Val 0, Val 1}
          \<and> \<not> score_less (?sc i j) (?sc i' j')
          \<and> (scanned_before (i', j') (i, j) \<longrightarrow> score_less (?sc i' j') (?sc i j))"
    by (elim exE conjE)
  from all c01 have mx: "\<not> score_less (?sc i j) (?sc 0 1)"
    and fi: "scanned_before (0, 1) (i, j) \<longrightarrow> score_less (?sc 0 1) (?sc i j)"
    by blast+
  from v have "(i, j) \<in> {(0, 0), (0, 1), (0, 2), (2, 0)}"
    by (auto simp: validateEntry_def blank_def markX_def markO_def nth_Cons split: nat.splits if_splits)
  then consider "(i, j) = (0, 0)" | "(i, j) = (0, 1)" | "(i, j) = (0, 2)" | "(i, j) = (2, 0)"
    by blast
  then have ij: "(i, j) = (0, 1)"
  proof cases
    case 1
    with mx s00 s01 show ?thesis by simp
  next
    case 2
    then show ?thesis .
  next
    case 3
    with fi sb s01 s02 show ?thesis by simp
  next
    case 4
    with mx s20 s01 show ?thesis by simp
  qed
  from g v ij have "getComputerMove 4 ?b = Some (Some (0, 1), ?b)" "validateEntry ?b 0 1"
    by simp_all
  with h e k s00 s01 s02 s20 sb show ?thesis by simp
qed

text \<open>
  C5. After a move has been applied in the turn loop, the pass through the loop body ends
  as the spec's transition says: a line of the mover's marks ends the game with the
  mover as winner, even on a board that is now full; otherwise a full board ends it in
  a draw; otherwise the turn passes to the other player and the loop goes on. This
  holds for the body of Part A, and in Part B for the human's move and for the
  computer's move. A pass that ends the game leaves the loop with that game and result,
  and the inputs that follow are not read.
\<close>

theorem turn_loop_follows_spec_transition:
  assumes "board3x3 (board g)"
  shows "(validateEntry_A (board g) row col \<longrightarrow>
            playGame_A_body g (Move row col)
              = spec_transition (g\<lparr>board := place (board g) (nat row) (nat col) (turn g)\<rparr>))
       \<and> (turn g = markX \<and> validateEntry (board g) row col \<longrightarrow>
            playGame_B_human g (Move row col)
              = spec_transition (g\<lparr>board := place (board g) (nat row) (nat col) (turn g)\<rparr>))
       \<and> (turn g = markO \<and> getComputerMove n (board g) = Some (Some (i, j), c) \<longrightarrow>
            c = board g \<and>
            playGame_B_computer n g = Some (spec_transition (g\<lparr>board := place (board g) i j (turn g)\<rparr>)))
       \<and> (playGame_A_body g inp = (g', Some r) \<longrightarrow> playGame_A g (inp # ins) = (g', Some r, ins))
       \<and> (playGame_A_body g inp = (g', None) \<longrightarrow> playGame_A g (inp # ins) = playGame_A g' ins)
       \<and> (turn g = markX \<and> playGame_B_human g inp = (g', Some r) \<longrightarrow>
            playGame_B n g (inp # ins) = Some (g', Some r, ins))
       \<and> (turn g = markX \<and> playGame_B_human g inp = (g', None) \<longrightarrow>
            playGame_B n g (inp # ins) = playGame_B n g' ins)
       \<and> (turn g \<noteq> markX \<and> playGame_B_computer n g = Some (g', Some r) \<longrightarrow>
            playGame_B n g ins = Some (g', Some r, ins))
       \<and> (turn g \<noteq> markX \<and> playGame_B_computer n g = Some (g', None) \<longrightarrow>
            playGame_B n g ins = playGame_B n g' ins)"
proof -
  have a: "playGame_A_body g (Move row col)
      = spec_transition (g\<lparr>board := place (board g) (nat row) (nat col) (turn g)\<rparr>)"
    if "validateEntry_A (board g) row col"
    using assms that by (rule playGame_A_body_spec)
  have h: "playGame_B_human g (Move row col)
      = spec_transition (g\<lparr>board := place (board g) (nat row) (nat col) (turn g)\<rparr>)"
    if "turn g = markX" "validateEntry (board g) row col"
  proof -
    have "board3x3 (board (g\<lparr>board := place (board g) (nat row) (nat col) markX\<rparr>))"
      using assms by (simp add: board3x3_place)
    from playGame_B_end_spec [OF this] that show ?thesis
      by (simp add: playGame_B_human_def)
  qed
  have c: "c = board g \<and>
      playGame_B_computer n g = Some (spec_transition (g\<lparr>board := place (board g) i j (turn g)\<rparr>))"
    if "turn g = markO" "getComputerMove n (board g) = Some (Some (i, j), c)"
  proof -
    from that(2) have eq: "c = board g"
      unfolding getComputerMove_def using assms by (rule getComputerMove_loop_frame [rotated])
    have "board3x3 (board (g\<lparr>board := place (board g) i j markO\<rparr>))"
      using assms by (simp add: board3x3_place)
    from playGame_B_end_spec [OF this] that eq show ?thesis
      by (simp add: playGame_B_computer_def)
  qed
  have l: "playGame_A_body g inp = (g', Some r) \<longrightarrow> playGame_A g (inp # ins) = (g', Some r, ins)"
    "playGame_A_body g inp = (g', None) \<longrightarrow> playGame_A g (inp # ins) = playGame_A g' ins"
    "turn g = markX \<and> playGame_B_human g inp = (g', Some r) \<longrightarrow>
       playGame_B n g (inp # ins) = Some (g', Some r, ins)"
    "turn g = markX \<and> playGame_B_human g inp = (g', None) \<longrightarrow>
       playGame_B n g (inp # ins) = playGame_B n g' ins"
    "turn g \<noteq> markX \<and> playGame_B_computer n g = Some (g', Some r) \<longrightarrow>
       playGame_B n g ins = Some (g', Some r, ins)"
    "turn g \<noteq> markX \<and> playGame_B_computer n g = Some (g', None) \<longrightarrow>
       playGame_B n g ins = playGame_B n g' ins"
    by simp_all
  from a h c l show ?thesis by blast
qed


theorem turn_loop_follows_spec_transition_witness:
  "board3x3 (board \<lparr>board = [[markX, markX, blank], [markO, markO, markX], [markX, markO, markO]], turn = markX\<rparr>)
   \<and> validateEntry_A [[markX, markX, blank], [markO, markO, markX], [markX, markO, markO]] 0 2
   \<and> validateEntry [[markX, markX, blank], [markO, markO, markX], [markX, markO, markO]] 0 2
   \<and> playGame_A_body \<lparr>board = [[markX, markX, blank], [markO, markO, markX], [markX, markO, markO]], turn = markX\<rparr> (Move 0 2)
       = (\<lparr>board = [[markX, markX, markX], [markO, markO, markX], [markX, markO, markO]], turn = markX\<rparr>, Some (Win markX))
   \<and> playGame_B_human \<lparr>board = [[markX, markX, blank], [markO, markO, markX], [markX, markO, markO]], turn = markX\<rparr> (Move 0 2)
       = (\<lparr>board = [[markX, markX, markX], [markO, markO, markX], [markX, markO, markO]], turn = markX\<rparr>, Some (Win markX))
   \<and> playGame_A \<lparr>board = [[markX, markX, blank], [markO, markO, markX], [markX, markO, markO]], turn = markX\<rparr>
         [Move 0 2, Move 1 1]
       = (\<lparr>board = [[markX, markX, markX], [markO, markO, markX], [markX, markO, markO]], turn = markX\<rparr>,
          Some (Win markX), [Move 1 1])
   \<and> playGame_B 2 \<lparr>board = [[markX, markX, blank], [markO, markO, markX], [markX, markO, markO]], turn = markX\<rparr>
         [Move 0 2, Move 1 1]
       = Some (\<lparr>board = [[markX, markX, markX], [markO, markO, markX], [markX, markO, markO]], turn = markX\<rparr>,
          Some (Win markX), [Move 1 1])
   \<and> getComputerMove 2 [[markX, markO, markX], [markX, markO, markO], [markO, markX, blank]]
       = Some (Some (2, 2), [[markX, markO, markX], [markX, markO, markO], [markO, markX, blank]])
   \<and> playGame_B_computer 2 \<lparr>board = [[markX, markO, markX], [markX, markO, markO], [markO, markX, blank]], turn = markO\<rparr>
       = Some (\<lparr>board = [[markX, markO, markX], [markX, markO, markO], [markO, markX, markO]], turn = markO\<rparr>, Some Draw)
   \<and> playGame_B 2 \<lparr>board = [[markX, markO, markX], [markX, markO, markO], [markO, markX, blank]], turn = markO\<rparr> [Move 0 0]
       = Some (\<lparr>board = [[markX, markO, markX], [markX, markO, markO], [markO, markX, markO]], turn = markO\<rparr>,
          Some Draw, [Move 0 0])"
proof -
  let ?g = "\<lparr>board = [[markX, markX, blank], [markO, markO, markX], [markX, markO, markO]], turn = markX\<rparr>"
  let ?g' = "\<lparr>board = [[markX, markX, markX], [markO, markO, markX], [markX, markO, markO]], turn = markX\<rparr>"
  let ?h = "\<lparr>board = [[markX, markO, markX], [markX, markO, markO], [markO, markX, blank]], turn = markO\<rparr>"
  let ?h' = "\<lparr>board = [[markX, markO, markX], [markX, markO, markO], [markO, markX, markO]], turn = markO\<rparr>"
  have s: "board3x3 (board ?g)" "board3x3 (board ?h)"
    by (simp_all add: board3x3_def)
  have v: "validateEntry_A (board ?g) 0 2" "validateEntry (board ?g) 0 2"
    by (simp_all add: validateEntry_A_def validateEntry_def)
  have t: "spec_transition (?g\<lparr>board := place (board ?g) (nat 0) (nat 2) (turn ?g)\<rparr>) = (?g', Some (Win markX))"
    by (simp add: spec_transition_def place_def has_line_def lines_def)
  have m: "getComputerMove 2 (board ?h) = Some (Some (2, 2), board ?h)"
    by simp code_simp
  have u: "spec_transition (?h\<lparr>board := place (board ?h) 2 2 (turn ?h)\<rparr>) = (?h', Some Draw)"
    by (simp add: spec_transition_def place_def has_line_def lines_def cells_eq)
  note g = turn_loop_follows_spec_transition [OF s(1), of 0 2 2 2 2 "board ?g" "Move 0 2" ?g' "Win markX" "[Move 1 1]"]
  note h = turn_loop_follows_spec_transition [OF s(2), of 0 0 2 2 2 "board ?h" "Move 0 0" ?h' Draw "[Move 0 0]"]
  from g v t have a: "playGame_A_body ?g (Move 0 2) = (?g', Some (Win markX))"
    and b: "playGame_B_human ?g (Move 0 2) = (?g', Some (Win markX))"
    by simp_all
  from g a b have l: "playGame_A ?g [Move 0 2, Move 1 1] = (?g', Some (Win markX), [Move 1 1])"
    "playGame_B 2 ?g [Move 0 2, Move 1 1] = Some (?g', Some (Win markX), [Move 1 1])"
    by simp_all
  from h m u have c: "playGame_B_computer 2 ?h = Some (?h', Some Draw)"
    by simp
  from h c have k: "playGame_B 2 ?h [Move 0 0] = Some (?h', Some Draw, [Move 0 0])"
    by simp
  from s v a b l m c k show ?thesis by simp
qed

text \<open>
  C6. In every state the loop of Part A passes through from \<^verbatim>\<open>Game.__init__\<close>, at the
  head of the loop and after the pass that ends the game, the board has three rows of
  three cells, each cell is blank or holds X or O, and the number of X marks minus the
  number of O marks is 0 or 1.
\<close>

theorem reachable_A_counts_alternate:
  assumes "reachable_A g r"
  shows "board3x3 (board g)
       \<and> (\<forall>row \<in> set (board g). \<forall>c \<in> set row. c = blank \<or> c = markX \<or> c = markO)
       \<and> (int (count_mark (board g) markX) - int (count_mark (board g) markO) = 0
          \<or> int (count_mark (board g) markX) - int (count_mark (board g) markO) = 1)"
  using reachable_A_inv [OF assms]
  by (auto simp: turn_inv_def cells_ok_def list_all_iff split: option.splits)

theorem reachable_A_counts_alternate_witness:
  "reachable_A \<lparr>board = [[blank, blank, blank], [blank, markX, blank], [blank, blank, blank]], turn = markO\<rparr> None
   \<and> board3x3 [[blank, blank, blank], [blank, markX, blank], [blank, blank, blank]]
   \<and> int (count_mark [[blank, blank, blank], [blank, markX, blank], [blank, blank, blank]] markX)
       - int (count_mark [[blank, blank, blank], [blank, markX, blank], [blank, blank, blank]] markO) = 1"
proof -
  let ?g = "\<lparr>board = [[blank, blank, blank], [blank, markX, blank], [blank, blank, blank]], turn = markO\<rparr>"
  have "playGame_A_body Game_init (Move 1 1) = (?g, None)"
    by (simp add: playGame_A_body_def Game_init_def Board_init_def validateEntry_A_def place_def
        checkWin_A_def checkFull_def switchPlayer_def numeral_3_eq_3 upt3 Let_def)
  with reachable_A.start have r: "reachable_A ?g None"
    by (rule reachable_A.pass)
  have "count_mark (board ?g) markX = 1" "count_mark (board ?g) markO = 0"
    by (simp_all add: count_mark_def)
  with reachable_A_counts_alternate [OF r] r show ?thesis by simp
qed

text \<open>
  C8. On a board with a blank cell, whatever index the model predicts: when the cell
  \<^verbatim>\<open>divmod(index, 3)\<close> is a valid entry, \<^verbatim>\<open>getComputerMove\<close> of Part C returns it and
  prints nothing; when it is not, the move returned is the element of \<^verbatim>\<open>available\<close>
  that the random source draws, \<^verbatim>\<open>available\<close> holds exactly the blank cells in range,
  every one of them is returned for some draw, and the notice is printed. Either way the
  move returned is a valid entry. With a prediction of 0 and cell (0, 0) occupied, the
  move is a blank cell other than (0, 0), and the notice is printed.
\<close>

theorem getComputerMove_C_falls_back_to_blank_cell:
  assumes "\<exists>(i, j) \<in> set cells. c ! i ! j = blank"
    and "randbelow (length (available c)) < length (available c)"
  shows "set (available c) = {(i, j). (i, j) \<in> set cells \<and> c ! i ! j = blank}
       \<and> (validateEntry c (predict (encodeBoard c) div 3) (predict (encodeBoard c) mod 3) \<longrightarrow>
            getComputerMove_C predict randbelow c
              = Inr ((predict (encodeBoard c) div 3, predict (encodeBoard c) mod 3), []))
       \<and> (\<not> validateEntry c (predict (encodeBoard c) div 3) (predict (encodeBoard c) mod 3) \<longrightarrow>
            (\<exists>i j. getComputerMove_C predict randbelow c = Inr ((int i, int j), [InvalidPredictionNotice])
               \<and> (i, j) = available c ! randbelow (length (available c))
               \<and> (i, j) \<in> set (available c))
            \<and> (\<forall>(i, j) \<in> set (available c). \<exists>k < length (available c).
                  getComputerMove_C predict (\<lambda>_. k) c = Inr ((int i, int j), [InvalidPredictionNotice])))
       \<and> (\<exists>row col out. getComputerMove_C predict randbelow c = Inr ((row, col), out)
            \<and> validateEntry c row col)
       \<and> (predict (encodeBoard c) = 0 \<and> c ! 0 ! 0 \<noteq> blank \<longrightarrow>
            (\<exists>i j. getComputerMove_C predict randbelow c = Inr ((int i, int j), [InvalidPredictionNotice])
               \<and> (i, j) \<noteq> (0, 0) \<and> (i, j) \<in> set cells \<and> c ! i ! j = blank))"
proof -
  let ?row = "predict (encodeBoard c) div 3" and ?col = "predict (encodeBoard c) mod 3"
  let ?k = "randbelow (length (available c))"
  from assms(1) have ne: "available c \<noteq> []"
    using set_available [of c] by (cases "available c") auto
  obtain i j where ij: "available c ! ?k = (i, j)" by (cases "available c ! ?k")
  from assms(2) have mem: "(i, j) \<in> set (available c)"
    unfolding ij [symmetric] by (rule nth_mem)
  have valid: "getComputerMove_C predict randbelow c = Inr ((?row, ?col), [])"
    if "validateEntry c ?row ?col"
    using that by (simp add: getComputerMove_C_def Let_def)
  have fb: "getComputerMove_C predict randbelow c = Inr ((int i, int j), [InvalidPredictionNotice])"
    if "\<not> validateEntry c ?row ?col"
    using that ne ij by (simp add: getComputerMove_C_def Let_def)
  have every: "\<exists>k < length (available c).
      getComputerMove_C predict (\<lambda>_. k) c = Inr ((int i', int j'), [InvalidPredictionNotice])"
    if "\<not> validateEntry c ?row ?col" "(i', j') \<in> set (available c)" for i' j'
  proof -
    from that(2) obtain k where "k < length (available c)" "available c ! k = (i', j')"
      by (auto simp: in_set_conv_nth)
    with that(1) ne show ?thesis
      by (intro exI [of _ k]) (simp add: getComputerMove_C_def Let_def)
  qed
  have ret: "\<exists>row col out. getComputerMove_C predict randbelow c = Inr ((row, col), out)
      \<and> validateEntry c row col"
  proof (cases "validateEntry c ?row ?col")
    case True
    with valid show ?thesis by blast
  next
    case False
    with fb available_valid [OF mem] show ?thesis by blast
  qed
  have zero: "\<exists>i j. getComputerMove_C predict randbelow c = Inr ((int i, int j), [InvalidPredictionNotice])
      \<and> (i, j) \<noteq> (0, 0) \<and> (i, j) \<in> set cells \<and> c ! i ! j = blank"
    if "predict (encodeBoard c) = 0" "c ! 0 ! 0 \<noteq> blank"
  proof -
    from that have "\<not> validateEntry c ?row ?col" by (simp add: validateEntry_def)
    then have r: "getComputerMove_C predict randbelow c = Inr ((int i, int j), [InvalidPredictionNotice])"
      by (rule fb)
    from mem have m: "(i, j) \<in> set cells" "c ! i ! j = blank"
      by (simp_all add: set_available)
    have "(i, j) \<noteq> (0, 0)"
    proof
      assume "(i, j) = (0, 0)"
      with m(2) have "c ! 0 ! 0 = blank" by simp
      with that(2) show False by contradiction
    qed
    with r m show ?thesis by blast
  qed
  have fb': "\<exists>i j. getComputerMove_C predict randbelow c = Inr ((int i, int j), [InvalidPredictionNotice])
      \<and> (i, j) = available c ! ?k \<and> (i, j) \<in> set (available c)"
    if "\<not> validateEntry c ?row ?col"
    using fb [OF that] ij mem by auto
  from set_available [of c] valid fb' every ret zero show ?thesis
    by (intro conjI impI ballI) (blast+)?
qed


theorem getComputerMove_C_falls_back_to_blank_cell_witness:
  "(\<exists>(i, j) \<in> set cells. [[markX, blank, blank], [blank, markO, blank], [blank, blank, blank]] ! i ! j = blank)
   \<and> (\<lambda>n. n - 1) (length (available [[markX, blank, blank], [blank, markO, blank], [blank, blank, blank]]))
        < length (available [[markX, blank, blank], [blank, markO, blank], [blank, blank, blank]])
   \<and> encodeBoard [[markX, blank, blank], [blank, markO, blank], [blank, blank, blank]]
        = [1, 0, 0, 0, - 1, 0, 0, 0, 0]
   \<and> \<not> validateEntry [[markX, blank, blank], [blank, markO, blank], [blank, blank, blank]] (0 div 3) (0 mod 3)
   \<and> getComputerMove_C (\<lambda>_. 0) (\<lambda>n. n - 1) [[markX, blank, blank], [blank, markO, blank], [blank, blank, blank]]
        = Inr ((2, 2), [InvalidPredictionNotice])
   \<and> getComputerMove_C (\<lambda>_. 5) (\<lambda>n. n - 1) [[markX, blank, blank], [blank, markO, blank], [blank, blank, blank]]
        = Inr ((1, 2), [])"
proof -
  let ?c = "[[markX, blank, blank], [blank, markO, blank], [blank, blank, blank]]"
  have a: "available ?c = [(0, 1), (0, 2), (1, 0), (1, 2), (2, 0), (2, 1), (2, 2)]"
    by (simp add: available_def upt3)
  have e: "\<exists>(i, j) \<in> set cells. ?c ! i ! j = blank"
    by (simp add: cells_eq)
  have r: "(\<lambda>n. n - 1) (length (available ?c)) < length (available ?c)"
    by (simp add: a)
  have n: "encodeBoard ?c = [1, 0, 0, 0, - 1, 0, 0, 0, 0]"
    by (simp add: encodeBoard_def)
  have v: "\<not> validateEntry ?c (0 div 3) (0 mod 3)" "validateEntry ?c (5 div 3) (5 mod 3)"
    by (simp_all add: validateEntry_def)
  from getComputerMove_C_falls_back_to_blank_cell
    [where c = ?c and randbelow = "\<lambda>n. n - 1" and predict = "\<lambda>_. 0"] e r v(1)
  obtain i j where "getComputerMove_C (\<lambda>_. 0) (\<lambda>n. n - 1) ?c = Inr ((int i, int j), [InvalidPredictionNotice])"
    "(i, j) = available ?c ! (length (available ?c) - 1)"
    by auto
  then have f: "getComputerMove_C (\<lambda>_. 0) (\<lambda>n. n - 1) ?c = Inr ((2, 2), [InvalidPredictionNotice])"
    by (simp add: a)
  from getComputerMove_C_falls_back_to_blank_cell
    [where c = ?c and randbelow = "\<lambda>n. n - 1" and predict = "\<lambda>_. 5"] e r v(2)
  have g: "getComputerMove_C (\<lambda>_. 5) (\<lambda>n. n - 1) ?c = Inr ((1, 2), [])"
    by simp
  from e r n v f g show ?thesis by simp
qed

text \<open>
  C10. \<^verbatim>\<open>load_dataset\<close> skips every line whose number of whitespace-separated fields is
  not 10, without raising, and the skipped lines do not change what is made of the
  others. When every field of every 10-field line is an integer literal, it returns
  those lines in order, each as its first nine fields parsed into integers and its
  tenth field parsed into the label. A 10-field line with a field that is no integer
  literal makes it raise \<^verbatim>\<open>ValueError\<close>.
\<close>

theorem load_dataset_keeps_ten_field_lines:
  "((\<forall>line \<in> set ls. well_formed_line line \<longrightarrow> (\<forall>t \<in> set (line_fields line). py_int t \<noteq> None)) \<longrightarrow>
      load_dataset ls =
        Inr (map (\<lambda>line. map (\<lambda>t. the (py_int t)) (take 9 (line_fields line))) (filter well_formed_line ls),
             map (\<lambda>line. the (py_int (line_fields line ! 9))) (filter well_formed_line ls)))
   \<and> ((\<exists>line \<in> set ls. well_formed_line line \<and> (\<exists>t \<in> set (line_fields line). py_int t = None)) \<longrightarrow>
      load_dataset ls = Inl ValueError)
   \<and> load_dataset (filter well_formed_line ls) = load_dataset ls"
proof -
  let ?ok = "\<lambda>ls. list_all (\<lambda>line. well_formed_line line \<longrightarrow> list_all (\<lambda>t. py_int t \<noteq> None) (line_fields line)) ls"
  have a: "load_dataset ls =
        Inr (map (\<lambda>line. map (\<lambda>t. the (py_int t)) (take 9 (line_fields line))) (filter well_formed_line ls),
             map (\<lambda>line. the (py_int (line_fields line ! 9))) (filter well_formed_line ls))"
    if "?ok ls" for ls
    using load_dataset_loop_ok [OF that, of "[]" "[]"] by (simp add: load_dataset_def)
  have b: "load_dataset ls = Inl ValueError" if "\<not> ?ok ls" for ls
    using load_dataset_loop_bad [OF that, of "[]" "[]"] by (simp add: load_dataset_def)
  have f: "?ok (filter well_formed_line ls) \<longleftrightarrow> ?ok ls"
    by (rule filter_well_formed_ok)
  have c: "load_dataset (filter well_formed_line ls) = load_dataset ls"
  proof (cases "?ok ls")
    case True
    with f a [of ls] a [of "filter well_formed_line ls"] show ?thesis by simp
  next
    case False
    with f b [of ls] b [of "filter well_formed_line ls"] show ?thesis by simp
  qed
  have ok_iff: "?ok ls \<longleftrightarrow> (\<forall>line \<in> set ls. well_formed_line line \<longrightarrow> (\<forall>t \<in> set (line_fields line). py_int t \<noteq> None))"
    by (simp add: list_all_iff)
  from a [of ls] b [of ls] c ok_iff show ?thesis by blast
qed

theorem load_dataset_keeps_ten_field_lines_witness:
  "list_all (\<lambda>line. well_formed_line line \<longrightarrow> list_all (\<lambda>t. py_int t \<noteq> None) (line_fields line))
     [''1 0 -1 0 0 0 0 0 0 4'' @ [CHR 0x0A], ''board label'', [CHR 0x0A],
      ''  0 1 -1 0 +1 0 0 0 0 8  '' @ [CHR 0x0A], ''1 2 3'']
   \<and> load_dataset
     [''1 0 -1 0 0 0 0 0 0 4'' @ [CHR 0x0A], ''board label'', [CHR 0x0A],
      ''  0 1 -1 0 +1 0 0 0 0 8  '' @ [CHR 0x0A], ''1 2 3'']
     = Inr ([[1, 0, - 1, 0, 0, 0, 0, 0, 0], [0, 1, - 1, 0, 1, 0, 0, 0, 0]], [4, 8])
   \<and> well_formed_line ''1 0 0 0 0 0 0 0 0 x''
   \<and> list_ex (\<lambda>t. py_int t = None) (line_fields ''1 0 0 0 0 0 0 0 0 x'')
   \<and> load_dataset [''0 0 0 0 0 0 0 0 0 4'', ''1 0 0 0 0 0 0 0 0 x''] = Inl ValueError"
proof -
  let ?ls = "[''1 0 -1 0 0 0 0 0 0 4'' @ [CHR 0x0A], ''board label'', [CHR 0x0A],
      ''  0 1 -1 0 +1 0 0 0 0 8  '' @ [CHR 0x0A], ''1 2 3'']"
  let ?bad = "[''0 0 0 0 0 0 0 0 0 4'', ''1 0 0 0 0 0 0 0 0 x'']"
  have ok: "list_all (\<lambda>line. well_formed_line line \<longrightarrow> list_all (\<lambda>t. py_int t \<noteq> None) (line_fields line)) ?ls"
    by code_simp
  have r: "(map (\<lambda>line. map (\<lambda>t. the (py_int t)) (take 9 (line_fields line))) (filter well_formed_line ?ls),
            map (\<lambda>line. the (py_int (line_fields line ! 9))) (filter well_formed_line ?ls))
         = ([[1, 0, - 1, 0, 0, 0, 0, 0, 0], [0, 1, - 1, 0, 1, 0, 0, 0, 0]], [4, 8])"
    by code_simp
  have w: "well_formed_line ''1 0 0 0 0 0 0 0 0 x''"
    by code_simp
  have x: "list_ex (\<lambda>t. py_int t = None) (line_fields ''1 0 0 0 0 0 0 0 0 x'')"
    by code_simp
  from ok load_dataset_keeps_ten_field_lines [of ?ls] r
  have g: "load_dataset ?ls = Inr ([[1, 0, - 1, 0, 0, 0, 0, 0, 0], [0, 1, - 1, 0, 1, 0, 0, 0, 0]], [4, 8])"
    by (simp add: list_all_iff)
  from w x have "\<exists>line \<in> set ?bad. well_formed_line line \<and> (\<exists>t \<in> set (line_fields line). py_int t = None)"
    by (simp add: list_ex_iff)
  with load_dataset_keeps_ten_field_lines [of ?bad]
  have b: "load_dataset ?bad = Inl ValueError" by blast
  from ok g w x b show ?thesis by simp
qed

theorem load_dataset_raises_on_non_integer_field:
  "length (py_split (py_strip ''1 0 0 0 0 0 0 0 0 x'')) = 10
   \<and> load_dataset [''1 0 0 0 0 0 0 0 0 x''] = Inl ValueError"
  by code_simp

text \<open>
  C3. From the empty board, with X choosing by the minimizing rule and O by
  \<^verbatim>\<open>getComputerMove\<close>, each taking the first cell in row-major order that is best for
  it, the game ends in a draw: for every recursion depth from 10 on and every bound of
  at least nine passes on the loop, the loop ends after nine passes with the result
  \<open>Draw\<close>, on a full board, and no board the game passes through holds a line of X or
  of O.
\<close>

theorem selfPlay_from_empty_board_is_draw:
  assumes "9 \<le> k" and "10 \<le> n"
  shows "selfPlay k n Game_init = Some (selfPlay_history, Draw)
       \<and> length selfPlay_history = 9
       \<and> board (last selfPlay_history)
            = [[markX, markX, markO], [markO, markO, markX], [markX, markO, markX]]
       \<and> (\<forall>(i, j) \<in> set cells. board (last selfPlay_history) ! i ! j \<noteq> blank)
       \<and> (\<forall>g \<in> set selfPlay_history. \<not> has_line (board g) markX \<and> \<not> has_line (board g) markO)"
proof -
  from assms(1) have "k = 9 + (k - 9)" by simp
  with selfPlay_run [OF assms(2), of "k - 9"]
  have run: "selfPlay k n Game_init = Some (selfPlay_history, Draw)" by simp
  have len: "length selfPlay_history = 9"
    and fin: "board (last selfPlay_history)
      = [[markX, markX, markO], [markO, markO, markX], [markX, markO, markX]]"
    by (simp_all add: selfPlay_history_def)
  have full: "\<forall>(i, j) \<in> set cells. board (last selfPlay_history) ! i ! j \<noteq> blank"
    unfolding fin by (simp add: cells_eq)
  have nol: "\<forall>g \<in> set selfPlay_history. \<not> has_line (board g) markX \<and> \<not> has_line (board g) markO"
    by (simp add: selfPlay_history_def has_line_def lines_def)
  from run len fin full nol show ?thesis by blast
qed

theorem selfPlay_from_empty_board_is_draw_witness:
  "(9 :: nat) \<le> 9 \<and> (10 :: nat) \<le> 10
   \<and> selfPlay 9 10 Game_init = Some (selfPlay_history, Draw)
   \<and> map board selfPlay_history =
       [[[markX, blank, blank], [blank, blank, blank], [blank, blank, blank]],
        [[markX, blank, blank], [blank, markO, blank], [blank, blank, blank]],
        [[markX, markX, blank], [blank, markO, blank], [blank, blank, blank]],
        [[markX, markX, markO], [blank, markO, blank], [blank, blank, blank]],
        [[markX, markX, markO], [blank, markO, blank], [markX, blank, blank]],
        [[markX, markX, markO], [markO, markO, blank], [markX, blank, blank]],
        [[markX, markX, markO], [markO, markO, markX], [markX, blank, blank]],
        [[markX, markX, markO], [markO, markO, markX], [markX, markO, blank]],
        [[markX, markX, markO], [markO, markO, markX], [markX, markO, markX]]]
   \<and> list_all (\<lambda>g. \<not> has_line (board g) markX \<and> \<not> has_line (board g) markO) selfPlay_history"
proof -
  have h: "(9 :: nat) \<le> 9" "(10 :: nat) \<le> 10" by simp_all
  have m: "map board selfPlay_history =
       [[[markX, blank, blank], [blank, blank, blank], [blank, blank, blank]],
        [[markX, blank, blank], [blank, markO, blank], [blank, blank, blank]],
        [[markX, markX, blank], [blank, markO, blank], [blank, blank, blank]],
        [[markX, markX, markO], [blank, markO, blank], [blank, blank, blank]],
        [[markX, markX, markO], [blank, markO, blank], [markX, blank, blank]],
        [[markX, markX, markO], [markO, markO, blank], [markX, blank, blank]],
        [[markX, markX, markO], [markO, markO, markX], [markX, blank, blank]],
        [[markX, markX, markO], [markO, markO, markX], [markX, markO, blank]],
        [[markX, markX, markO], [markO, markO, markX], [markX, markO, markX]]]"
    by (simp add: selfPlay_history_def)
  from selfPlay_from_empty_board_is_draw [OF h] h m show ?thesis
    by (simp add: list_all_iff)
qed

end
